theory Spec2Isabelle
  imports Complex_Main
begin

section \<open>Symbolic expressions and polynomials in the local variable\<close>

text \<open>
  The solvers of \<^verbatim>\<open>sympy_crosscheck_all.py\<close> work on symbolic expressions. The right-hand
  side of an equation is an expression over constants, the independent variable \<open>x\<close> and
  the symbols of the unknown functions: the applied function \<open>y(x)\<close> and its derivatives
  \<open>y(x).diff(x, k)\<close> (the derivative of order 0 is \<open>y(x)\<close> itself), the bare symbol
  \<open>y\<close>, and the applied functions \<open>f(x)\<close> and \<open>g(x)\<close> of a system. Expressions are
  built with sums, products and powers with a natural exponent; a negation \<open>-e\<close> is the
  product \<open>(-1) * e\<close>, as the library stores it.
\<close>

datatype sym = SymX | FunY nat | SymY | FunF | FunG

datatype 'a expr =
    Const 'a
  | Sym sym
  | Add "'a expr" "'a expr"
  | Mul "'a expr" "'a expr"
  | Pow "'a expr" nat

datatype error = IndexError | Unsubstituted sym

text \<open>
  A polynomial in the local variable \<open>t\<close> is the list of its coefficients, the coefficient
  of \<open>t ^ k\<close> at index \<open>k\<close>.
\<close>

fun padd :: "'a::field_char_0 list \<Rightarrow> 'a list \<Rightarrow> 'a list" where
  "padd [] q = q"
| "padd p [] = p"
| "padd (a # p) (b # q) = (a + b) # padd p q"

definition smul :: "'a::field_char_0 \<Rightarrow> 'a list \<Rightarrow> 'a list" where
  "smul c p = map (\<lambda>a. c * a) p"

fun pmul :: "'a::field_char_0 list \<Rightarrow> 'a list \<Rightarrow> 'a list" where
  "pmul [] q = []"
| "pmul p [] = []"
| "pmul (a # p) q = padd (smul a q) (0 # pmul p q)"

fun ppow :: "'a::field_char_0 list \<Rightarrow> nat \<Rightarrow> 'a list" where
  "ppow p 0 = [1]"
| "ppow p (Suc k) = pmul p (ppow p k)"

text \<open>\<open>expr.coeff(t, n)\<close>: the coefficient of \<open>t ^ n\<close>, zero when the term is absent.\<close>

definition coeff_t :: "'a::field_char_0 list \<Rightarrow> nat \<Rightarrow> 'a" where
  "coeff_t p n = (if n < length p then p ! n else 0)"

text \<open>\<open>sp.series(e, t, 0, k).removeO()\<close>: the terms of degree below \<open>k\<close>.\<close>

definition series_removeO :: "'a list \<Rightarrow> nat \<Rightarrow> 'a list" where
  "series_removeO p k = take k p"

text \<open>\<open>sp.diff(Y, t, k)\<close>: the derivative of order \<open>k\<close> with respect to \<open>t\<close>.\<close>

definition diff_t1 :: "'a::field_char_0 list \<Rightarrow> 'a list" where
  "diff_t1 p = map (\<lambda>i. of_nat (Suc i) * p ! Suc i) [0..<length p - 1]"

definition diff_t :: "'a::field_char_0 list \<Rightarrow> nat \<Rightarrow> 'a list" where
  "diff_t p k = (diff_t1 ^^ k) p"

text \<open>
  \<open>sp.expand(E.subs(subs_map))\<close>: every symbol of the expression that is a key of the
  substitution map is replaced by its polynomial in \<open>t\<close> and the result is expanded.

  A derivative \<open>y(x).diff(x, k)\<close> that is no key still contains \<open>y(x)\<close>: when \<open>y(x)\<close> is
  a key, the substitution replaces it there by a polynomial in \<open>t\<close>, and the derivative
  with respect to \<open>x\<close> of a polynomial in \<open>t\<close> is 0. So the order-m solver returns
  \<open>1 - x^2/2 + x^4/24\<close> for \<open>y'' = -y' - y\<close>, \<open>y(0) = 1\<close>, \<open>y'(0) = 0\<close> at order 4.

  The symbol of a function that no key reaches (\<open>f(x)\<close> in a scalar equation,
  \<open>y(x)\<close> or \<open>y\<close> in a system) stays in the expression, whose coefficients are then no
  constants. Such right-hand sides are outside the equations the solvers are written for,
  and the model stops there with \<open>Unsubstituted\<close>.
\<close>

fun subs_expand :: "(sym \<rightharpoonup> 'a::field_char_0 list) \<Rightarrow> 'a expr \<Rightarrow> error + 'a list" where
  "subs_expand subs_map (Const c) = Inr [c]"
| "subs_expand subs_map (Sym s) =
     (case subs_map s of
        Some p \<Rightarrow> Inr p
      | None \<Rightarrow>
          (case s of
             FunY k \<Rightarrow> (if subs_map (FunY 0) = None then Inl (Unsubstituted s) else Inr [])
           | _ \<Rightarrow> Inl (Unsubstituted s)))"
| "subs_expand subs_map (Add e1 e2) =
     (case subs_expand subs_map e1 of Inl e \<Rightarrow> Inl e
      | Inr p \<Rightarrow> (case subs_expand subs_map e2 of Inl e \<Rightarrow> Inl e | Inr q \<Rightarrow> Inr (padd p q)))"
| "subs_expand subs_map (Mul e1 e2) =
     (case subs_expand subs_map e1 of Inl e \<Rightarrow> Inl e
      | Inr p \<Rightarrow> (case subs_expand subs_map e2 of Inl e \<Rightarrow> Inl e | Inr q \<Rightarrow> Inr (pmul p q)))"
| "subs_expand subs_map (Pow e1 k) =
     (case subs_expand subs_map e1 of Inl e \<Rightarrow> Inl e | Inr p \<Rightarrow> Inr (ppow p k))"

text \<open>
  The coefficient of \<open>t ^ n\<close> of a substituted right-hand side, as the three solvers
  extract it: substitute and expand, truncate the series after degree \<open>n\<close>, read the
  coefficient.
\<close>

definition coeff_of_subs :: "(sym \<rightharpoonup> 'a::field_char_0 list) \<Rightarrow> 'a expr \<Rightarrow> nat \<Rightarrow> error + 'a" where
  "coeff_of_subs subs_map E n =
     (case subs_expand subs_map E of
        Inl e \<Rightarrow> Inl e
      | Inr E_sub \<Rightarrow> (let E_ser = series_removeO E_sub (n + 1) in Inr (coeff_t E_ser n)))"

text \<open>A \<open>for n in range(...)\<close> loop whose body may raise: the first error ends the loop.\<close>

fun for_range :: "(nat \<Rightarrow> 's \<Rightarrow> error + 's) \<Rightarrow> nat list \<Rightarrow> 's \<Rightarrow> error + 's" where
  "for_range body [] s = Inr s"
| "for_range body (n # ns) s =
     (case body n s of Inl e \<Rightarrow> Inl e | Inr s' \<Rightarrow> for_range body ns s')"

text \<open>
  \<open>sum((a[k] if a[k] is not None else 0) * t**k for k in range(cnt))\<close>, and the same sum
  with \<open>(a[k] or 0)\<close> in the system solver: an entry that is still \<open>None\<close> counts as 0.
\<close>

definition partial_sum :: "'a::field_char_0 option list \<Rightarrow> nat \<Rightarrow> 'a list" where
  "partial_sum a cnt = map (\<lambda>k. case a ! k of None \<Rightarrow> 0 | Some v \<Rightarrow> v) [0..<cnt]"

text \<open>
  \<open>sp.expand(poly_t.subs(t, x - x0))\<close>: the polynomial in \<open>t\<close> written out in powers of
  \<open>x\<close>. The coefficients of the result in powers of \<open>x - x0\<close> are those of \<open>poly_t\<close>.
\<close>

definition expand_at :: "'a::field_char_0 list \<Rightarrow> 'a \<Rightarrow> 'a list" where
  "expand_at poly_t x0 = foldr (\<lambda>c acc. padd [c] (pmul [- x0, 1] acc)) poly_t []"

section \<open>The first-order solver\<close>

text \<open>
  Coefficients are exact constants, values of a field of characteristic 0 (the rationals in
  the worked examples); \<open>sp.sympify\<close> and \<open>sp.simplify\<close> do not change the value of a
  constant. The order of the equation, the truncation order and the derivative orders of
  the initial conditions are natural numbers. Each solver is given twice: the list of
  coefficients in powers of \<open>t = x - x0\<close> that its loop leaves (\<open>poly_t\<close>), and the
  value it returns, the same polynomial written in powers of \<open>x\<close>.
\<close>

definition first_order_subs :: "'a::field_char_0 \<Rightarrow> 'a list \<Rightarrow> (sym \<rightharpoonup> 'a list)" where
  "first_order_subs x0 Yn = [SymX \<mapsto> [x0, 1], FunY 0 \<mapsto> Yn, SymY \<mapsto> Yn]"

definition first_order_step ::
  "'a::field_char_0 expr \<Rightarrow> 'a \<Rightarrow> nat \<Rightarrow> 'a option list \<Rightarrow> error + 'a option list" where
  "first_order_step F x0 n a =
     (let Yn = partial_sum a (n + 1) in
      case coeff_of_subs (first_order_subs x0 Yn) F n of
        Inl e \<Rightarrow> Inl e
      | Inr c_n \<Rightarrow> Inr (a[n + 1 := Some (c_n / of_nat (n + 1))]))"

text \<open>The coefficients \<open>a\<close> in powers of \<open>t = x - x0\<close> when the loop has ended.\<close>

definition first_order_coeffs ::
  "'a::field_char_0 expr \<Rightarrow> 'a \<Rightarrow> nat \<Rightarrow> 'a \<Rightarrow> error + 'a list" where
  "first_order_coeffs F y0 order x0 =
     (let a = (replicate (order + 1) None)[0 := Some y0] in
      case for_range (first_order_step F x0) [0..<order] a of
        Inl e \<Rightarrow> Inl e
      | Inr a' \<Rightarrow> Inr (partial_sum a' (order + 1)))"

definition series_first_order ::
  "'a::field_char_0 expr \<Rightarrow> 'a \<Rightarrow> nat \<Rightarrow> 'a \<Rightarrow> error + 'a list" where
  "series_first_order F y0 order x0 =
     (case first_order_coeffs F y0 order x0 of
        Inl e \<Rightarrow> Inl e
      | Inr poly_t \<Rightarrow> Inr (expand_at poly_t x0))"

section \<open>The solver for an equation of order m\<close>

text \<open>
  \<open>for k, val in ics.items(): a[k] = val\<close> on the list of \<open>order + 1\<close> zeros. The dictionary
  is the list of its items; a key beyond the end of the list raises \<open>IndexError\<close>.
\<close>

fun set_ics :: "(nat \<times> 'a) list \<Rightarrow> 'a list \<Rightarrow> error + 'a list" where
  "set_ics [] a = Inr a"
| "set_ics ((k, val) # rest) a =
     (if k < length a then set_ics rest (a[k := val]) else Inl IndexError)"

text \<open>\<open>sum(a[i] * t**i for i in range(min(K, order) + 1))\<close>; \<open>K\<close> is \<open>-1\<close> when \<open>n + m = 0\<close>.\<close>

definition Y_upto :: "'a list \<Rightarrow> nat \<Rightarrow> int \<Rightarrow> 'a list" where
  "Y_upto a order K = map (\<lambda>i. a ! i) [0..<nat (min K (int order) + 1)]"

text \<open>
  The substitution map of one step: \<open>x\<close>, \<open>y(x)\<close> and the bare \<open>y\<close>, and then, for
  \<open>k\<close> in \<open>range(1, m)\<close>, the key \<open>y(x).diff(x, k - 1)\<close> with the value \<open>derivs[k - 1]\<close>.
\<close>

definition nth_order_subs ::
  "'a::field_char_0 \<Rightarrow> nat \<Rightarrow> 'a list \<Rightarrow> 'a list list \<Rightarrow> (sym \<rightharpoonup> 'a list)" where
  "nth_order_subs x0 m Y derivs =
     fold (\<lambda>k subs_map. subs_map(FunY (k - 1) \<mapsto> derivs ! (k - 1))) [1..<m]
       [SymX \<mapsto> [x0, 1], FunY 0 \<mapsto> Y, SymY \<mapsto> Y]"

definition nth_order_step ::
  "nat \<Rightarrow> 'a::field_char_0 expr \<Rightarrow> 'a \<Rightarrow> nat \<Rightarrow> nat \<Rightarrow> 'a list \<Rightarrow> error + 'a list" where
  "nth_order_step m G x0 order n a =
     (let Y = Y_upto a order (int n + int m - 1);
          derivs = map (\<lambda>k. diff_t Y k) [0..<m]
      in case coeff_of_subs (nth_order_subs x0 m Y derivs) G n of
           Inl e \<Rightarrow> Inl e
         | Inr c_n \<Rightarrow>
             (let factor = fact (n + m) / fact n
              in Inr (a[n + m := c_n / factor])))"

definition nth_order_coeffs ::
  "nat \<Rightarrow> 'a::field_char_0 expr \<Rightarrow> (nat \<times> 'a) list \<Rightarrow> nat \<Rightarrow> 'a \<Rightarrow> error + 'a list" where
  "nth_order_coeffs m G ics order x0 =
     (case set_ics ics (replicate (order + 1) 0) of
        Inl e \<Rightarrow> Inl e
      | Inr a \<Rightarrow> for_range (nth_order_step m G x0 order) [0..<order + 1 - m] a)"

definition series_nth_order ::
  "nat \<Rightarrow> 'a::field_char_0 expr \<Rightarrow> (nat \<times> 'a) list \<Rightarrow> nat \<Rightarrow> 'a \<Rightarrow> error + 'a list" where
  "series_nth_order m G ics order x0 =
     (case nth_order_coeffs m G ics order x0 of
        Inl e \<Rightarrow> Inl e
      | Inr poly_t \<Rightarrow> Inr (expand_at poly_t x0))"

section \<open>The solver for a system of two equations\<close>

definition system_subs :: "'a::field_char_0 \<Rightarrow> 'a list \<Rightarrow> 'a list \<Rightarrow> (sym \<rightharpoonup> 'a list)" where
  "system_subs x0 Fn Gn = [SymX \<mapsto> [x0, 1], FunF \<mapsto> Fn, FunG \<mapsto> Gn]"

definition system_step ::
  "'a::field_char_0 expr \<Rightarrow> 'a expr \<Rightarrow> 'a \<Rightarrow> nat \<Rightarrow> 'a option list \<times> 'a option list
     \<Rightarrow> error + 'a option list \<times> 'a option list" where
  "system_step F G x0 n s =
     (case s of (af, ag) \<Rightarrow>
        (let subs_map = system_subs x0 (partial_sum af (n + 1)) (partial_sum ag (n + 1)) in
         case coeff_of_subs subs_map F n of
           Inl e \<Rightarrow> Inl e
         | Inr cF \<Rightarrow>
             (case coeff_of_subs subs_map G n of
                Inl e \<Rightarrow> Inl e
              | Inr cG \<Rightarrow>
                  Inr (af[n + 1 := Some (cF / of_nat (n + 1))],
                       ag[n + 1 := Some (cG / of_nat (n + 1))]))))"

definition system_coeffs ::
  "'a::field_char_0 expr \<Rightarrow> 'a expr \<Rightarrow> 'a \<Rightarrow> 'a \<Rightarrow> nat \<Rightarrow> 'a \<Rightarrow> error + 'a list \<times> 'a list" where
  "system_coeffs F G f0 g0 order x0 =
     (let af = (replicate (order + 1) None)[0 := Some f0];
          ag = (replicate (order + 1) None)[0 := Some g0]
      in case for_range (system_step F G x0) [0..<order] (af, ag) of
           Inl e \<Rightarrow> Inl e
         | Inr (af', ag') \<Rightarrow> Inr (partial_sum af' (order + 1), partial_sum ag' (order + 1)))"

definition series_system_2x2 ::
  "'a::field_char_0 expr \<Rightarrow> 'a expr \<Rightarrow> 'a \<Rightarrow> 'a \<Rightarrow> nat \<Rightarrow> 'a \<Rightarrow> error + 'a list \<times> 'a list" where
  "series_system_2x2 F G f0 g0 order x0 =
     (case system_coeffs F G f0 g0 order x0 of
        Inl e \<Rightarrow> Inl e
      | Inr (poly_f, poly_g) \<Rightarrow> Inr (expand_at poly_f x0, expand_at poly_g x0))"

section \<open>Notions used to state the properties\<close>

text \<open>The symbols that occur in an expression.\<close>

fun syms :: "'a expr \<Rightarrow> sym set" where
  "syms (Const c) = {}"
| "syms (Sym s) = {s}"
| "syms (Add e1 e2) = syms e1 \<union> syms e2"
| "syms (Mul e1 e2) = syms e1 \<union> syms e2"
| "syms (Pow e1 k) = syms e1"

text \<open>
  The symbols that a substitution map disposes of: its keys, and every derivative of
  \<open>y(x)\<close> when \<open>y(x)\<close> is a key.
\<close>

definition covered :: "(sym \<rightharpoonup> 'a list) \<Rightarrow> sym set" where
  "covered subs_map = dom subs_map \<union> (if subs_map (FunY 0) = None then {} else range FunY)"

text \<open>
  The same right-hand side written with the bare symbol \<open>y\<close> in place of \<open>y(x)\<close>, and
  with \<open>y(x)\<close> in place of the bare symbol.
\<close>

fun with_bare_y :: "'a expr \<Rightarrow> 'a expr" where
  "with_bare_y (Const c) = Const c"
| "with_bare_y (Sym s) = (if s = FunY 0 then Sym SymY else Sym s)"
| "with_bare_y (Add e1 e2) = Add (with_bare_y e1) (with_bare_y e2)"
| "with_bare_y (Mul e1 e2) = Mul (with_bare_y e1) (with_bare_y e2)"
| "with_bare_y (Pow e1 k) = Pow (with_bare_y e1) k"

fun with_applied_y :: "'a expr \<Rightarrow> 'a expr" where
  "with_applied_y (Const c) = Const c"
| "with_applied_y (Sym s) = (if s = SymY then Sym (FunY 0) else Sym s)"
| "with_applied_y (Add e1 e2) = Add (with_applied_y e1) (with_applied_y e2)"
| "with_applied_y (Mul e1 e2) = Mul (with_applied_y e1) (with_applied_y e2)"
| "with_applied_y (Pow e1 k) = Pow (with_applied_y e1) k"


text \<open>
  The coefficient \<open>c_n\<close> of one step of the order-m solver, from the partial series
  \<open>Y\<close>: the derivatives, the substitution map and the extraction, as in the loop body.
\<close>

definition nth_order_c :: "nat \<Rightarrow> 'a::field_char_0 expr \<Rightarrow> 'a \<Rightarrow> 'a list \<Rightarrow> nat \<Rightarrow> error + 'a" where
  "nth_order_c m G x0 Y n = coeff_of_subs (nth_order_subs x0 m Y (map (\<lambda>k. diff_t Y k) [0..<m])) G n"

text \<open>
  Loop invariants: what holds of the lists of coefficients when \<open>k\<close> steps have run,
  and what holds of the coefficients that a solver returns.
\<close>

definition first_order_inv ::
  "'a::field_char_0 expr \<Rightarrow> 'a \<Rightarrow> 'a \<Rightarrow> nat \<Rightarrow> nat \<Rightarrow> 'a option list \<Rightarrow> bool" where
  "first_order_inv F x0 y0 N k a \<longleftrightarrow>
     length a = N + 1 \<and> a ! 0 = Some y0 \<and>
     (\<forall>n<k. \<exists>c. coeff_of_subs (first_order_subs x0 (partial_sum a (Suc n))) F n = Inr c \<and>
                 a ! (Suc n) = Some (c / of_nat (Suc n)))"

definition first_order_rec :: "'a::field_char_0 expr \<Rightarrow> 'a \<Rightarrow> 'a \<Rightarrow> nat \<Rightarrow> 'a list \<Rightarrow> bool" where
  "first_order_rec F x0 y0 N a \<longleftrightarrow>
     length a = N + 1 \<and> a ! 0 = y0 \<and>
     (\<forall>n<N. \<exists>c. coeff_of_subs (first_order_subs x0 (take (Suc n) a)) F n = Inr c \<and>
                 a ! (Suc n) = c / of_nat (Suc n))"

definition system_inv ::
  "'a::field_char_0 expr \<Rightarrow> 'a expr \<Rightarrow> 'a \<Rightarrow> 'a \<Rightarrow> 'a \<Rightarrow> nat \<Rightarrow> nat
     \<Rightarrow> 'a option list \<times> 'a option list \<Rightarrow> bool" where
  "system_inv F G x0 f0 g0 N k s \<longleftrightarrow>
     length (fst s) = N + 1 \<and> length (snd s) = N + 1 \<and>
     fst s ! 0 = Some f0 \<and> snd s ! 0 = Some g0 \<and>
     (\<forall>n<k. \<exists>cF cG.
        coeff_of_subs (system_subs x0 (partial_sum (fst s) (Suc n)) (partial_sum (snd s) (Suc n))) F n = Inr cF \<and>
        coeff_of_subs (system_subs x0 (partial_sum (fst s) (Suc n)) (partial_sum (snd s) (Suc n))) G n = Inr cG \<and>
        fst s ! Suc n = Some (cF / of_nat (Suc n)) \<and>
        snd s ! Suc n = Some (cG / of_nat (Suc n)))"

definition system_rec ::
  "'a::field_char_0 expr \<Rightarrow> 'a expr \<Rightarrow> 'a \<Rightarrow> 'a \<Rightarrow> 'a \<Rightarrow> nat \<Rightarrow> 'a list \<Rightarrow> 'a list \<Rightarrow> bool" where
  "system_rec F G x0 f0 g0 N pf pg \<longleftrightarrow>
     length pf = N + 1 \<and> length pg = N + 1 \<and> pf ! 0 = f0 \<and> pg ! 0 = g0 \<and>
     (\<forall>n<N. \<exists>cF cG.
        coeff_of_subs (system_subs x0 (take (Suc n) pf) (take (Suc n) pg)) F n = Inr cF \<and>
        coeff_of_subs (system_subs x0 (take (Suc n) pf) (take (Suc n) pg)) G n = Inr cG \<and>
        pf ! Suc n = cF / of_nat (Suc n) \<and>
        pg ! Suc n = cG / of_nat (Suc n))"

definition nth_order_inv ::
  "nat \<Rightarrow> 'a::field_char_0 expr \<Rightarrow> 'a \<Rightarrow> 'a list \<Rightarrow> nat \<Rightarrow> nat \<Rightarrow> 'a list \<Rightarrow> bool" where
  "nth_order_inv m G x0 a0 N k a \<longleftrightarrow>
     length a = N + 1 \<and> (\<forall>i<m. i \<le> N \<longrightarrow> a ! i = a0 ! i) \<and>
     (\<forall>n<k. \<exists>c. nth_order_c m G x0 (take (n + m) a) n = Inr c \<and>
                 a ! (n + m) = c / (fact (n + m) / fact n))"

section \<open>Loops, substitution maps and initial conditions\<close>

lemma for_range_append:
  "for_range body (xs @ ys) s =
     (case for_range body xs s of Inl e \<Rightarrow> Inl e | Inr s' \<Rightarrow> for_range body ys s')"
  by (induction xs arbitrary: s) (auto split: sum.splits)

lemma for_range_upt_snoc:
  "for_range body ([0..<k] @ [k]) s =
     (case for_range body [0..<k] s of Inl e \<Rightarrow> Inl e | Inr s' \<Rightarrow> body k s')"
  by (simp add: for_range_append split: sum.splits)

lemma subs_expand_total:
  "syms E \<subseteq> covered subs_map \<Longrightarrow> \<exists>p. subs_expand subs_map E = Inr p"
  by (induction E) (auto simp: covered_def split: sum.splits option.splits sym.splits if_splits)

lemma coeff_of_subs_total:
  "syms E \<subseteq> covered subs_map \<Longrightarrow> \<exists>c. coeff_of_subs subs_map E n = Inr c"
  using subs_expand_total [of E subs_map]
  by (auto simp: coeff_of_subs_def Let_def split: sum.splits)

lemma covered_first_order_subs:
  "covered (first_order_subs x0 Yn) = insert SymX (insert SymY (range FunY))"
  by (auto simp: covered_def first_order_subs_def split: if_splits)

lemma partial_sum_update:
  "cnt \<le> j \<Longrightarrow> partial_sum (a[j := v]) cnt = partial_sum a cnt"
  by (simp add: partial_sum_def)

lemma length_partial_sum: "length (partial_sum a cnt) = cnt"
  by (simp add: partial_sum_def)

lemma nth_partial_sum:
  "k < cnt \<Longrightarrow> partial_sum a cnt ! k = (case a ! k of None \<Rightarrow> 0 | Some v \<Rightarrow> v)"
  by (simp add: partial_sum_def)

lemma take_partial_sum:
  "k \<le> cnt \<Longrightarrow> take k (partial_sum a cnt) = partial_sum a k"
  by (simp add: partial_sum_def take_map min_def)

lemma first_order_inv_init:
  "first_order_inv F x0 y0 N 0 ((replicate (N + 1) None)[0 := Some y0])"
  by (simp add: first_order_inv_def)

lemma first_order_step_inv:
  assumes "first_order_inv F x0 y0 N k a" and "k < N"
    and "first_order_step F x0 k a = Inr a'"
  shows "first_order_inv F x0 y0 N (Suc k) a'"
proof -
  from assms(3) obtain c where c: "coeff_of_subs (first_order_subs x0 (partial_sum a (Suc k))) F k = Inr c"
    and a': "a' = a[k + 1 := Some (c / of_nat (Suc k))]"
    by (auto simp: first_order_step_def Let_def split: sum.splits)
  from assms(1) have len: "length a = N + 1" and a0: "a ! 0 = Some y0"
    and old: "\<And>n. n < k \<Longrightarrow> \<exists>c. coeff_of_subs (first_order_subs x0 (partial_sum a (Suc n))) F n = Inr c \<and>
                 a ! (Suc n) = Some (c / of_nat (Suc n))"
    by (auto simp: first_order_inv_def)
  have ps: "partial_sum a' (Suc n) = partial_sum a (Suc n)" if "n \<le> k" for n
    using that by (simp add: a' partial_sum_update)
  have "\<exists>d. coeff_of_subs (first_order_subs x0 (partial_sum a' (Suc n))) F n = Inr d \<and>
                 a' ! (Suc n) = Some (d / of_nat (Suc n))" if "n < Suc k" for n
  proof (cases "n = k")
    case True
    then show ?thesis using c len assms(2) ps [of k] by (simp add: a')
  next
    case False
    with that have "n < k" by simp
    from old [OF this] show ?thesis using \<open>n < k\<close> ps [of n] by (simp add: a')
  qed
  then show ?thesis
    using len a0 by (simp add: first_order_inv_def a')
qed

lemma first_order_run_inv:
  "k \<le> N \<Longrightarrow>
   for_range (first_order_step F x0) [0..<k] ((replicate (N + 1) None)[0 := Some y0]) = Inr a \<Longrightarrow>
   first_order_inv F x0 y0 N k a"
proof (induction k arbitrary: a)
  case 0
  then show ?case using first_order_inv_init [of F x0 y0 N] by simp
next
  case (Suc k)
  from Suc.prems(2) obtain a1 where
    run: "for_range (first_order_step F x0) [0..<k] ((replicate (N + 1) None)[0 := Some y0]) = Inr a1"
    and step: "first_order_step F x0 k a1 = Inr a"
    by (auto simp: for_range_upt_snoc split: sum.splits)
  from Suc.IH [OF _ run] Suc.prems(1) have "first_order_inv F x0 y0 N k a1" by simp
  from first_order_step_inv [OF this _ step] Suc.prems(1) show ?case by simp
qed

lemma first_order_step_total:
  "syms F \<subseteq> insert SymX (insert SymY (range FunY)) \<Longrightarrow> \<exists>a'. first_order_step F x0 n a = Inr a'"
  using coeff_of_subs_total [of F "first_order_subs x0 (partial_sum a (Suc n))" n]
  by (auto simp: first_order_step_def Let_def covered_first_order_subs)

lemma first_order_run_total:
  "syms F \<subseteq> insert SymX (insert SymY (range FunY)) \<Longrightarrow> \<exists>a'. for_range (first_order_step F x0) [0..<k] a = Inr a'"
proof (induction k)
  case 0
  then show ?case by simp
next
  case (Suc k)
  then obtain a1 where "for_range (first_order_step F x0) [0..<k] a = Inr a1" by auto
  moreover from first_order_step_total [OF Suc.prems] obtain a2 where "first_order_step F x0 k a1 = Inr a2"
    by blast
  ultimately show ?case by (simp add: for_range_upt_snoc)
qed

lemma first_order_coeffs_rec:
  assumes "first_order_coeffs F y0 N x0 = Inr a"
  shows "first_order_rec F x0 y0 N a"
proof -
  from assms obtain a1 where
    run: "for_range (first_order_step F x0) [0..<N] ((replicate (N + 1) None)[0 := Some y0]) = Inr a1"
    and a: "a = partial_sum a1 (N + 1)"
    by (auto simp: first_order_coeffs_def Let_def split: sum.splits)
  from first_order_run_inv [OF _ run] have inv: "first_order_inv F x0 y0 N N a1" by simp
  then have a0: "a1 ! 0 = Some y0"
    and rec: "\<And>n. n < N \<Longrightarrow> \<exists>c. coeff_of_subs (first_order_subs x0 (partial_sum a1 (Suc n))) F n = Inr c \<and>
                 a1 ! (Suc n) = Some (c / of_nat (Suc n))"
    by (auto simp: first_order_inv_def)
  have "\<exists>c. coeff_of_subs (first_order_subs x0 (take (Suc n) a)) F n = Inr c \<and>
                 a ! (Suc n) = c / of_nat (Suc n)" if "n < N" for n
    using rec [OF that] that by (auto simp: a take_partial_sum nth_partial_sum)
  then show ?thesis
    using a0 by (simp add: first_order_rec_def a length_partial_sum nth_partial_sum)
qed

lemma first_order_coeffs_total:
  "syms F \<subseteq> insert SymX (insert SymY (range FunY)) \<Longrightarrow> \<exists>a. first_order_coeffs F y0 N x0 = Inr a"
  using first_order_run_total [of F x0 N "(replicate (N + 1) None)[0 := Some y0]"]
  by (auto simp: first_order_coeffs_def Let_def)

lemma first_order_rec_unique:
  assumes "first_order_rec F x0 y0 N a" and "first_order_rec F x0 y0 N' a'" and "N' \<le> N"
  shows "k \<le> N' \<Longrightarrow> take (Suc k) a' = take (Suc k) a"
proof (induction k)
  case 0
  from assms have "a ! 0 = a' ! 0" "length a = N + 1" "length a' = N' + 1"
    by (auto simp: first_order_rec_def)
  then show ?case by (simp add: take_Suc_conv_app_nth)
next
  case (Suc k)
  then have IH: "take (Suc k) a' = take (Suc k) a" and k: "k < N'" by simp_all
  from assms(1) k assms(3) obtain c where
    c: "coeff_of_subs (first_order_subs x0 (take (Suc k) a)) F k = Inr c" "a ! (Suc k) = c / of_nat (Suc k)"
    unfolding first_order_rec_def by (meson less_le_trans)
  from assms(2) k obtain c' where
    c': "coeff_of_subs (first_order_subs x0 (take (Suc k) a')) F k = Inr c'" "a' ! (Suc k) = c' / of_nat (Suc k)"
    unfolding first_order_rec_def by meson
  from c c' IH have "a' ! Suc k = a ! Suc k" by simp
  moreover from assms k have "Suc k < length a" "Suc k < length a'"
    by (auto simp: first_order_rec_def)
  ultimately show ?case using IH by (simp add: take_Suc_conv_app_nth [of "Suc k"])
qed

lemma covered_system_subs: "covered (system_subs x0 Fn Gn) = {SymX, FunF, FunG}"
  by (auto simp: covered_def system_subs_def split: if_splits)

lemma system_step_inv:
  assumes "system_inv F G x0 f0 g0 N k s" and "k < N"
    and "system_step F G x0 k s = Inr s'"
  shows "system_inv F G x0 f0 g0 N (Suc k) s'"
proof -
  obtain af ag where s: "s = (af, ag)" by (cases s)
  let ?env = "system_subs x0 (partial_sum af (Suc k)) (partial_sum ag (Suc k))"
  from assms(3) obtain cF cG where cF: "coeff_of_subs ?env F k = Inr cF"
    and cG: "coeff_of_subs ?env G k = Inr cG"
    and s': "s' = (af[Suc k := Some (cF / of_nat (Suc k))], ag[Suc k := Some (cG / of_nat (Suc k))])"
    by (auto simp: system_step_def s Let_def split: sum.splits)
  from assms(1) have len: "length af = N + 1" "length ag = N + 1"
    and init: "af ! 0 = Some f0" "ag ! 0 = Some g0"
    and old: "\<And>n. n < k \<Longrightarrow> \<exists>cF cG.
        coeff_of_subs (system_subs x0 (partial_sum af (Suc n)) (partial_sum ag (Suc n))) F n = Inr cF \<and>
        coeff_of_subs (system_subs x0 (partial_sum af (Suc n)) (partial_sum ag (Suc n))) G n = Inr cG \<and>
        af ! Suc n = Some (cF / of_nat (Suc n)) \<and>
        ag ! Suc n = Some (cG / of_nat (Suc n))"
    by (auto simp: system_inv_def s)
  have ps: "partial_sum (af[Suc k := v]) (Suc n) = partial_sum af (Suc n)"
       "partial_sum (ag[Suc k := w]) (Suc n) = partial_sum ag (Suc n)" if "n \<le> k" for n v w
    using that by (simp_all add: partial_sum_update)
  have "\<exists>dF dG.
        coeff_of_subs (system_subs x0 (partial_sum (fst s') (Suc n)) (partial_sum (snd s') (Suc n))) F n = Inr dF \<and>
        coeff_of_subs (system_subs x0 (partial_sum (fst s') (Suc n)) (partial_sum (snd s') (Suc n))) G n = Inr dG \<and>
        fst s' ! Suc n = Some (dF / of_nat (Suc n)) \<and>
        snd s' ! Suc n = Some (dG / of_nat (Suc n))" if "n < Suc k" for n
  proof (cases "n = k")
    case True
    then show ?thesis using cF cG len assms(2) by (simp add: s' ps)
  next
    case False
    with that have "n < k" by simp
    from old [OF this] show ?thesis using \<open>n < k\<close> by (simp add: s' ps)
  qed
  then show ?thesis
    using len init by (simp add: system_inv_def s')
qed

lemma system_run_inv:
  "k \<le> N \<Longrightarrow>
   for_range (system_step F G x0) [0..<k]
     ((replicate (N + 1) None)[0 := Some f0], (replicate (N + 1) None)[0 := Some g0]) = Inr s \<Longrightarrow>
   system_inv F G x0 f0 g0 N k s"
proof (induction k arbitrary: s)
  case 0
  then show ?case by (auto simp: system_inv_def)
next
  case (Suc k)
  from Suc.prems(2) obtain s1 where
    run: "for_range (system_step F G x0) [0..<k]
     ((replicate (N + 1) None)[0 := Some f0], (replicate (N + 1) None)[0 := Some g0]) = Inr s1"
    and step: "system_step F G x0 k s1 = Inr s"
    by (auto simp: for_range_upt_snoc split: sum.splits)
  from Suc.IH [OF _ run] Suc.prems(1) have "system_inv F G x0 f0 g0 N k s1" by simp
  from system_step_inv [OF this _ step] Suc.prems(1) show ?case by simp
qed

lemma system_step_total:
  assumes "syms F \<subseteq> {SymX, FunF, FunG}" and "syms G \<subseteq> {SymX, FunF, FunG}"
  shows "\<exists>s'. system_step F G x0 n s = Inr s'"
proof -
  obtain af ag where s: "s = (af, ag)" by (cases s)
  let ?env = "system_subs x0 (partial_sum af (n + 1)) (partial_sum ag (n + 1))"
  from assms have "\<exists>c. coeff_of_subs ?env F n = Inr c" "\<exists>c. coeff_of_subs ?env G n = Inr c"
    by (simp_all add: coeff_of_subs_total covered_system_subs)
  then show ?thesis by (auto simp: system_step_def s Let_def)
qed

lemma system_run_total:
  assumes "syms F \<subseteq> {SymX, FunF, FunG}" and "syms G \<subseteq> {SymX, FunF, FunG}"
  shows "\<exists>s'. for_range (system_step F G x0) [0..<k] s = Inr s'"
proof (induction k)
  case 0
  then show ?case by simp
next
  case (Suc k)
  then obtain s1 where "for_range (system_step F G x0) [0..<k] s = Inr s1" by auto
  moreover from system_step_total [OF assms] obtain s2 where "system_step F G x0 k s1 = Inr s2"
    by blast
  ultimately show ?case by (simp add: for_range_upt_snoc)
qed

lemma system_coeffs_rec:
  assumes "system_coeffs F G f0 g0 N x0 = Inr (pf, pg)"
  shows "system_rec F G x0 f0 g0 N pf pg"
proof -
  from assms obtain af ag where
    run: "for_range (system_step F G x0) [0..<N]
     ((replicate (N + 1) None)[0 := Some f0], (replicate (N + 1) None)[0 := Some g0]) = Inr (af, ag)"
    and pf: "pf = partial_sum af (N + 1)" and pg: "pg = partial_sum ag (N + 1)"
    by (auto simp: system_coeffs_def Let_def split: sum.splits)
  from system_run_inv [OF _ run] have inv: "system_inv F G x0 f0 g0 N N (af, ag)" by simp
  then have init: "af ! 0 = Some f0" "ag ! 0 = Some g0"
    and rec: "\<And>n. n < N \<Longrightarrow> \<exists>cF cG.
        coeff_of_subs (system_subs x0 (partial_sum af (Suc n)) (partial_sum ag (Suc n))) F n = Inr cF \<and>
        coeff_of_subs (system_subs x0 (partial_sum af (Suc n)) (partial_sum ag (Suc n))) G n = Inr cG \<and>
        af ! Suc n = Some (cF / of_nat (Suc n)) \<and>
        ag ! Suc n = Some (cG / of_nat (Suc n))"
    by (auto simp: system_inv_def)
  have "\<exists>cF cG.
        coeff_of_subs (system_subs x0 (take (Suc n) pf) (take (Suc n) pg)) F n = Inr cF \<and>
        coeff_of_subs (system_subs x0 (take (Suc n) pf) (take (Suc n) pg)) G n = Inr cG \<and>
        pf ! Suc n = cF / of_nat (Suc n) \<and>
        pg ! Suc n = cG / of_nat (Suc n)" if "n < N" for n
    using rec [OF that] that by (auto simp: pf pg take_partial_sum nth_partial_sum)
  then show ?thesis
    using init by (simp add: system_rec_def pf pg length_partial_sum nth_partial_sum)
qed

lemma system_coeffs_total:
  assumes "syms F \<subseteq> {SymX, FunF, FunG}" and "syms G \<subseteq> {SymX, FunF, FunG}"
  shows "\<exists>pf pg. system_coeffs F G f0 g0 N x0 = Inr (pf, pg)"
proof -
  from system_run_total [OF assms] obtain s' where
    "for_range (system_step F G x0) [0..<N]
     ((replicate (N + 1) None)[0 := Some f0], (replicate (N + 1) None)[0 := Some g0]) = Inr s'"
    by blast
  then show ?thesis by (cases s') (simp add: system_coeffs_def Let_def)
qed

lemma system_rec_unique:
  assumes "system_rec F G x0 f0 g0 N pf pg" and "system_rec F G x0 f0 g0 N' pf' pg'" and "N' \<le> N"
  shows "k \<le> N' \<Longrightarrow> take (Suc k) pf' = take (Suc k) pf \<and> take (Suc k) pg' = take (Suc k) pg"
proof (induction k)
  case 0
  from assms have "pf ! 0 = pf' ! 0" "pg ! 0 = pg' ! 0" "length pf = N + 1" "length pf' = N' + 1"
    "length pg = N + 1" "length pg' = N' + 1"
    by (auto simp: system_rec_def)
  then show ?case by (simp add: take_Suc_conv_app_nth)
next
  case (Suc k)
  then have IH: "take (Suc k) pf' = take (Suc k) pf" "take (Suc k) pg' = take (Suc k) pg"
    and k: "k < N'" by simp_all
  from assms(1) k assms(3) obtain cF cG where
    c: "coeff_of_subs (system_subs x0 (take (Suc k) pf) (take (Suc k) pg)) F k = Inr cF"
       "coeff_of_subs (system_subs x0 (take (Suc k) pf) (take (Suc k) pg)) G k = Inr cG"
       "pf ! Suc k = cF / of_nat (Suc k)" "pg ! Suc k = cG / of_nat (Suc k)"
    unfolding system_rec_def by (meson less_le_trans)
  from assms(2) k obtain cF' cG' where
    c': "coeff_of_subs (system_subs x0 (take (Suc k) pf') (take (Suc k) pg')) F k = Inr cF'"
       "coeff_of_subs (system_subs x0 (take (Suc k) pf') (take (Suc k) pg')) G k = Inr cG'"
       "pf' ! Suc k = cF' / of_nat (Suc k)" "pg' ! Suc k = cG' / of_nat (Suc k)"
    unfolding system_rec_def by meson
  from c c' IH have "pf' ! Suc k = pf ! Suc k" "pg' ! Suc k = pg ! Suc k" by simp_all
  moreover from assms k have "Suc k < length pf" "Suc k < length pf'" "Suc k < length pg" "Suc k < length pg'"
    by (auto simp: system_rec_def)
  ultimately show ?case using IH by (simp add: take_Suc_conv_app_nth [of "Suc k"])
qed

lemma map_nth_upt_take: "j \<le> length a \<Longrightarrow> map (\<lambda>i. a ! i) [0..<j] = take j a"
  by (rule nth_equalityI) simp_all

lemma Y_upto_take:
  "n + m \<le> N + 1 \<Longrightarrow> length a = N + 1 \<Longrightarrow> Y_upto a N (int n + int m - 1) = take (n + m) a"
proof -
  assume a: "n + m \<le> N + 1" "length a = N + 1"
  then have "nat (min (int n + int m - 1) (int N) + 1) = n + m" by (simp add: min_def)
  with a show ?thesis by (simp add: Y_upto_def map_nth_upt_take)
qed

lemma nth_order_step_inv:
  assumes "nth_order_inv m G x0 a0 N k a" and "k + m \<le> N"
    and "nth_order_step m G x0 N k a = Inr a'"
  shows "nth_order_inv m G x0 a0 N (Suc k) a'"
proof -
  from assms(1) have len: "length a = N + 1"
    and init: "\<And>i. i < m \<Longrightarrow> i \<le> N \<Longrightarrow> a ! i = a0 ! i"
    and old: "\<And>n. n < k \<Longrightarrow> \<exists>c. nth_order_c m G x0 (take (n + m) a) n = Inr c \<and>
                 a ! (n + m) = c / (fact (n + m) / fact n)"
    by (auto simp: nth_order_inv_def)
  from assms(2) len have Y: "Y_upto a N (int k + int m - 1) = take (k + m) a"
    by (simp add: Y_upto_take)
  from assms(3) obtain c where c: "nth_order_c m G x0 (take (k + m) a) k = Inr c"
    and a': "a' = a[k + m := c / (fact (k + m) / fact k)]"
    by (auto simp: nth_order_step_def nth_order_c_def Y Let_def split: sum.splits)
  have tk: "take (n + m) a' = take (n + m) a" if "n \<le> k" for n
    using that by (simp add: a')
  have "\<exists>d. nth_order_c m G x0 (take (n + m) a') n = Inr d \<and>
                 a' ! (n + m) = d / (fact (n + m) / fact n)" if "n < Suc k" for n
  proof (cases "n = k")
    case True
    then show ?thesis using c len assms(2) tk [of k] by (simp add: a')
  next
    case False
    with that have "n < k" by simp
    from old [OF this] show ?thesis using \<open>n < k\<close> tk [of n] by (simp add: a')
  qed
  moreover have "a' ! i = a0 ! i" if "i < m" "i \<le> N" for i
    using init [OF that] that by (simp add: a')
  ultimately show ?thesis
    using len by (simp add: nth_order_inv_def a')
qed

lemma nth_order_run_inv:
  "k \<le> N + 1 - m \<Longrightarrow> length a0 = N + 1 \<Longrightarrow>
   for_range (nth_order_step m G x0 N) [0..<k] a0 = Inr a \<Longrightarrow>
   nth_order_inv m G x0 a0 N k a"
proof (induction k arbitrary: a)
  case 0
  then show ?case by (simp add: nth_order_inv_def)
next
  case (Suc k)
  from Suc.prems(3) obtain a1 where
    run: "for_range (nth_order_step m G x0 N) [0..<k] a0 = Inr a1"
    and step: "nth_order_step m G x0 N k a1 = Inr a"
    by (auto simp: for_range_upt_snoc split: sum.splits)
  from Suc.IH [OF _ Suc.prems(2) run] Suc.prems(1) have "nth_order_inv m G x0 a0 N k a1" by simp
  from nth_order_step_inv [OF this _ step] Suc.prems(1) show ?case by simp
qed

lemma dom_fold_upd:
  "dom (fold (\<lambda>k mp. mp(f k \<mapsto> g k)) ks mp0) = dom mp0 \<union> f ` set ks"
  by (induction ks arbitrary: mp0) auto

lemma dom_nth_order_subs:
  "dom (nth_order_subs x0 m Y derivs) = insert SymX (insert SymY (FunY ` {j. j = 0 \<or> Suc j < m}))"
proof -
  have "(\<lambda>k. FunY (k - 1)) ` set [1..<m] = FunY ` {j. Suc j < m}"
  proof (rule set_eqI, rule iffI)
    fix s assume "s \<in> (\<lambda>k. FunY (k - 1)) ` set [1..<m]"
    then obtain k where "s = FunY (k - 1)" "1 \<le> k" "k < m" by auto
    then show "s \<in> FunY ` {j. Suc j < m}" by auto
  next
    fix s assume "s \<in> FunY ` {j. Suc j < m}"
    then obtain j where j: "s = FunY j" "Suc j < m" by auto
    then have "s = FunY (Suc j - 1)" "Suc j \<in> set [1..<m]" by auto
    then show "s \<in> (\<lambda>k. FunY (k - 1)) ` set [1..<m]" by blast
  qed
  then show ?thesis
    unfolding nth_order_subs_def dom_fold_upd by auto
qed

lemma covered_nth_order_subs:
  "covered (nth_order_subs x0 m Y derivs) = insert SymX (insert SymY (range FunY))"
proof -
  have "FunY 0 \<in> dom (nth_order_subs x0 m Y derivs)"
    unfolding dom_nth_order_subs by simp
  then have "nth_order_subs x0 m Y derivs (FunY 0) \<noteq> None" by (simp add: domIff)
  then show ?thesis
    unfolding covered_def dom_nth_order_subs by auto
qed

lemma nth_order_step_total:
  "syms G \<subseteq> insert SymX (insert SymY (range FunY)) \<Longrightarrow>
   \<exists>a'. nth_order_step m G x0 N n a = Inr a'"
  using coeff_of_subs_total [of G "nth_order_subs x0 m (Y_upto a N (int n + int m - 1))
      (map (\<lambda>k. diff_t (Y_upto a N (int n + int m - 1)) k) [0..<m])" n]
  by (auto simp: nth_order_step_def Let_def covered_nth_order_subs)

lemma nth_order_run_total:
  assumes "syms G \<subseteq> insert SymX (insert SymY (range FunY))"
  shows "\<exists>a'. for_range (nth_order_step m G x0 N) [0..<k] a = Inr a'"
proof (induction k)
  case 0
  then show ?case by simp
next
  case (Suc k)
  then obtain a1 where "for_range (nth_order_step m G x0 N) [0..<k] a = Inr a1" by auto
  moreover from nth_order_step_total [OF assms] obtain a2 where "nth_order_step m G x0 N k a1 = Inr a2"
    by blast
  ultimately show ?case by (simp add: for_range_upt_snoc)
qed

lemma set_ics_length: "set_ics ics a = Inr a' \<Longrightarrow> length a' = length a"
  by (induction ics arbitrary: a) (auto split: if_splits)

lemma set_ics_nth:
  "set_ics ics a = Inr a' \<Longrightarrow> i < length a \<Longrightarrow>
   a' ! i = (case map_of (rev ics) i of None \<Rightarrow> a ! i | Some v \<Rightarrow> v)"
proof (induction ics arbitrary: a)
  case Nil
  then show ?case by simp
next
  case (Cons kv ics)
  obtain k v where kv: "kv = (k, v)" by (cases kv)
  from Cons.prems have k: "k < length a" and r: "set_ics ics (a[k := v]) = Inr a'"
    by (auto simp: kv split: if_splits)
  from Cons.IH [OF r] Cons.prems(2) k show ?case
    by (auto simp: kv map_add_def nth_list_update split: option.splits)
qed

lemma set_ics_total:
  "\<forall>k \<in> fst ` set ics. k < length a \<Longrightarrow> \<exists>a'. set_ics ics a = Inr a'"
  by (induction ics arbitrary: a) auto

lemma set_ics_append:
  "set_ics (ics1 @ ics2) a =
     (case set_ics ics1 a of Inl e \<Rightarrow> Inl e | Inr a1 \<Rightarrow> set_ics ics2 a1)"
  by (induction ics1 arbitrary: a) auto

lemma map_of_distinct_rev:
  "distinct (map fst ics) \<Longrightarrow> map_of (rev ics) = map_of ics"
  by (rule ext) (metis distinct_rev map_of_inject_set rev_map set_rev distinct_map)

lemma nth_order_coeffs_inv:
  assumes "nth_order_coeffs m G ics N x0 = Inr a"
  shows "\<exists>a0. set_ics ics (replicate (N + 1) 0) = Inr a0 \<and> nth_order_inv m G x0 a0 N (N + 1 - m) a"
proof -
  from assms obtain a0 where a0: "set_ics ics (replicate (N + 1) 0) = Inr a0"
    and run: "for_range (nth_order_step m G x0 N) [0..<N + 1 - m] a0 = Inr a"
    by (auto simp: nth_order_coeffs_def split: sum.splits)
  from set_ics_length [OF a0] have "length a0 = N + 1" by simp
  from nth_order_run_inv [OF _ this run] a0 show ?thesis by auto
qed

lemma nth_order_coeffs_total:
  assumes "syms G \<subseteq> insert SymX (insert SymY (range FunY))"
    and "\<forall>k \<in> fst ` set ics. k \<le> N"
  shows "\<exists>a. nth_order_coeffs m G ics N x0 = Inr a"
proof -
  from assms(2) have "\<forall>k \<in> fst ` set ics. k < length (replicate (N + 1) (0::'a))" by auto
  from set_ics_total [OF this] obtain a0 where "set_ics ics (replicate (N + 1) 0) = Inr a0" by blast
  moreover from nth_order_run_total [OF assms(1)] obtain a where
    "for_range (nth_order_step m G x0 N) [0..<N + 1 - m] a0 = Inr a" by blast
  ultimately show ?thesis by (simp add: nth_order_coeffs_def)
qed

lemma nth_order_inv_unique:
  assumes "nth_order_inv m G x0 a0 N (N + 1 - m) a"
    and "nth_order_inv m G x0 a0' N' (N' + 1 - m) a'"
    and "N' \<le> N" and "\<And>i. i < m \<Longrightarrow> i \<le> N' \<Longrightarrow> a0' ! i = a0 ! i"
  shows "j \<le> N' + 1 \<Longrightarrow> take j a' = take j a"
proof (induction j)
  case 0
  then show ?case by simp
next
  case (Suc j)
  then have IH: "take j a' = take j a" and j: "j \<le> N'" by simp_all
  from assms(1,2) have len: "length a = N + 1" "length a' = N' + 1"
    by (auto simp: nth_order_inv_def)
  have "a' ! j = a ! j"
  proof (cases "j < m")
    case True
    with assms(1,2) j assms(3) have "a ! j = a0 ! j" "a' ! j = a0' ! j"
      by (auto simp: nth_order_inv_def)
    with assms(4) [OF True j] show ?thesis by simp
  next
    case False
    define n where "n = j - m"
    with False have nm: "n + m = j" by simp
    with j assms(3) have "n < N + 1 - m" "n < N' + 1 - m" by auto
    with assms(1,2) obtain c c' where
      "nth_order_c m G x0 (take (n + m) a) n = Inr c" "a ! (n + m) = c / (fact (n + m) / fact n)"
      "nth_order_c m G x0 (take (n + m) a') n = Inr c'" "a' ! (n + m) = c' / (fact (n + m) / fact n)"
      unfolding nth_order_inv_def by meson
    with IH show ?thesis by (simp add: nm)
  qed
  with IH j assms(3) len show ?case by (simp add: take_Suc_conv_app_nth)
qed

lemma nth_order_coeffs_prefix:
  assumes "nth_order_coeffs m G ics N x0 = Inr a" and "nth_order_coeffs m G ics N' x0 = Inr a'"
    and "N' \<le> N"
  shows "a' = take (N' + 1) a"
proof -
  from nth_order_coeffs_inv [OF assms(1)] obtain a0 where
    a0: "set_ics ics (replicate (N + 1) 0) = Inr a0" and inv: "nth_order_inv m G x0 a0 N (N + 1 - m) a"
    by blast
  from nth_order_coeffs_inv [OF assms(2)] obtain a0' where
    a0': "set_ics ics (replicate (N' + 1) 0) = Inr a0'" and inv': "nth_order_inv m G x0 a0' N' (N' + 1 - m) a'"
    by blast
  have "a0' ! i = a0 ! i" if "i \<le> N'" for i
    using set_ics_nth [OF a0, of i] set_ics_nth [OF a0', of i] that assms(3)
    by (simp del: replicate_Suc split: option.splits)
  with nth_order_inv_unique [OF inv inv' assms(3), of "N' + 1"] have "take (N' + 1) a' = take (N' + 1) a"
    by simp
  moreover from inv' have "length a' = N' + 1" by (simp add: nth_order_inv_def)
  ultimately show ?thesis by simp
qed

lemma first_order_coeffs_prefix:
  assumes "first_order_coeffs F y0 N x0 = Inr a" and "first_order_coeffs F y0 N' x0 = Inr a'"
    and "N' \<le> N"
  shows "a' = take (N' + 1) a"
proof -
  from first_order_rec_unique [OF first_order_coeffs_rec [OF assms(1)] first_order_coeffs_rec [OF assms(2)] assms(3), of N']
  have "take (N' + 1) a' = take (N' + 1) a" by simp
  moreover from first_order_coeffs_rec [OF assms(2)] have "length a' = N' + 1"
    by (simp add: first_order_rec_def)
  ultimately show ?thesis by simp
qed

lemma system_coeffs_prefix:
  assumes "system_coeffs F G f0 g0 N x0 = Inr (pf, pg)" and "system_coeffs F G f0 g0 N' x0 = Inr (pf', pg')"
    and "N' \<le> N"
  shows "pf' = take (N' + 1) pf \<and> pg' = take (N' + 1) pg"
proof -
  from system_rec_unique [OF system_coeffs_rec [OF assms(1)] system_coeffs_rec [OF assms(2)] assms(3), of N']
  have "take (N' + 1) pf' = take (N' + 1) pf" "take (N' + 1) pg' = take (N' + 1) pg" by simp_all
  moreover from system_coeffs_rec [OF assms(2)] have "length pf' = N' + 1" "length pg' = N' + 1"
    by (simp_all add: system_rec_def)
  ultimately show ?thesis by simp
qed

lemma partial_sum_update_Some:
  "j < cnt \<Longrightarrow> j < length a \<Longrightarrow> partial_sum (a[j := Some v]) cnt = (partial_sum a cnt)[j := v]"
  by (rule nth_equalityI) (auto simp: partial_sum_def nth_list_update)

lemma nth_order_subs_one: "nth_order_subs x0 1 Y derivs = first_order_subs x0 Y"
  by (simp add: nth_order_subs_def first_order_subs_def)

lemma fact_quotient_Suc: "(fact (Suc n) :: 'a::field_char_0) / fact n = of_nat (Suc n)"
  by (simp del: of_nat_Suc)

lemma nth_order_step_one:
  assumes "k < N" and "length a = N + 1"
  shows "nth_order_step 1 F x0 N k (partial_sum a (N + 1)) =
     (case first_order_step F x0 k a of Inl e \<Rightarrow> Inl e | Inr a' \<Rightarrow> Inr (partial_sum a' (N + 1)))"
proof -
  from assms have "Y_upto (partial_sum a (N + 1)) N (int k + int 1 - 1) = take (k + 1) (partial_sum a (N + 1))"
    by (intro Y_upto_take) (simp_all add: length_partial_sum)
  with assms have Y: "Y_upto (partial_sum a (N + 1)) N (int k + int 1 - 1) = partial_sum a (Suc k)"
    by (simp add: take_partial_sum)
  have f: "(fact (k + 1) :: 'a) / fact k = of_nat (k + 1)"
    using fact_quotient_Suc [of k, where 'a = 'a] by simp
  show ?thesis
    unfolding nth_order_step_def first_order_step_def Let_def Y nth_order_subs_one f
    using assms by (auto split: sum.splits simp: partial_sum_update_Some)
qed

lemma first_order_step_length: "first_order_step F x0 k a = Inr a' \<Longrightarrow> length a' = length a"
  by (auto simp: first_order_step_def Let_def split: sum.splits)

lemma nth_order_run_one:
  "k \<le> N \<Longrightarrow>
   (case for_range (first_order_step F x0) [0..<k] ((replicate (N + 1) None)[0 := Some y0]) of
      Inl e \<Rightarrow> for_range (nth_order_step 1 F x0 N) [0..<k] ((replicate (N + 1) 0)[0 := y0]) = Inl e
    | Inr a \<Rightarrow> length a = N + 1 \<and>
        for_range (nth_order_step 1 F x0 N) [0..<k] ((replicate (N + 1) 0)[0 := y0]) = Inr (partial_sum a (N + 1)))"
proof (induction k)
  case 0
  have "partial_sum ((replicate (N + 1) None)[0 := Some y0]) (N + 1) = (replicate (N + 1) 0)[0 := y0]"
    by (rule nth_equalityI)
      (auto simp: length_partial_sum nth_partial_sum nth_list_update simp del: replicate_Suc)
  then show ?case by (simp del: replicate_Suc)
next
  case (Suc k)
  then have k: "k < N" by simp
  show ?case
  proof (cases "for_range (first_order_step F x0) [0..<k] ((replicate (N + 1) None)[0 := Some y0])")
    case (Inl e)
    with Suc show ?thesis by (simp add: for_range_upt_snoc)
  next
    case (Inr a)
    with Suc have len: "length a = N + 1"
      and run: "for_range (nth_order_step 1 F x0 N) [0..<k] ((replicate (N + 1) 0)[0 := y0]) = Inr (partial_sum a (N + 1))"
      by simp_all
    show ?thesis
      using Inr run nth_order_step_one [OF k len, of F x0] len
      by (auto simp: for_range_upt_snoc first_order_step_length split: sum.splits)
  qed
qed

lemma nth_order_coeffs_one:
  "nth_order_coeffs 1 F [(0, y0)] N x0 = first_order_coeffs F y0 N x0"
  using nth_order_run_one [of N N F x0 y0]
  by (auto simp: nth_order_coeffs_def first_order_coeffs_def Let_def split: sum.splits)

lemma subs_expand_with_bare_y:
  "subs_map (FunY 0) = Some p \<Longrightarrow> subs_map SymY = Some p \<Longrightarrow>
   subs_expand subs_map (with_bare_y E) = subs_expand subs_map E"
  by (induction E) (auto split: sum.splits)

lemma subs_expand_with_applied_y:
  "subs_map (FunY 0) = Some p \<Longrightarrow> subs_map SymY = Some p \<Longrightarrow>
   subs_expand subs_map (with_applied_y E) = subs_expand subs_map E"
  by (induction E) (auto split: sum.splits)

lemma first_order_step_with_bare_y:
  "first_order_step (with_bare_y F) x0 = first_order_step F x0"
  by (intro ext)
    (simp add: first_order_step_def coeff_of_subs_def Let_def
      subs_expand_with_bare_y [where p = "partial_sum a (n + 1)" for a n] first_order_subs_def)

lemma first_order_step_with_applied_y:
  "first_order_step (with_applied_y F) x0 = first_order_step F x0"
  by (intro ext)
    (simp add: first_order_step_def coeff_of_subs_def Let_def
      subs_expand_with_applied_y [where p = "partial_sum a (n + 1)" for a n] first_order_subs_def)

lemma set_ics_missing_zero:
  assumes "k \<notin> fst ` set (ics1 @ ics2)" and "k \<le> N"
  shows "set_ics (ics1 @ (k, 0) # ics2) (replicate (N + 1) 0) = set_ics (ics1 @ ics2) (replicate (N + 1) 0)"
proof (cases "set_ics ics1 (replicate (N + 1) (0::'a))")
  case (Inl e)
  then show ?thesis by (simp add: set_ics_append)
next
  case (Inr a1)
  from set_ics_length [OF Inr] assms(2) have len: "k < length a1" by simp
  from assms(1) have "map_of (rev ics1) k = None"
    by (simp add: map_of_eq_None_iff image_Un)
  with set_ics_nth [OF Inr, of k] assms(2) have "a1 ! k = 0" by (simp del: replicate_Suc)
  then have "a1[k := 0] = a1" by (metis list_update_id)
  with Inr len show ?thesis by (simp add: set_ics_append)
qed

lemma set_ics_keys: "set_ics ics a = Inr a' \<Longrightarrow> (k, v) \<in> set ics \<Longrightarrow> k < length a"
proof (induction ics arbitrary: a)
  case Nil
  then show ?case by simp
next
  case (Cons kv ics)
  obtain k1 v1 where kv: "kv = (k1, v1)" by (cases kv)
  from Cons.prems(1) have k1: "k1 < length a" and r: "set_ics ics (a[k1 := v1]) = Inr a'"
    by (auto simp: kv split: if_splits)
  show ?case
  proof (cases "(k, v) = kv")
    case True
    with k1 kv show ?thesis by simp
  next
    case False
    with Cons.prems(2) have "(k, v) \<in> set ics" by simp
    from Cons.IH [OF r this] show ?thesis by simp
  qed
qed

lemma nth_order_coeffs_ics:
  assumes "nth_order_coeffs m G ics N x0 = Inr b" and "distinct (map fst ics)"
    and "(k, v) \<in> set ics" and "k < m"
  shows "b ! k = v"
proof -
  from nth_order_coeffs_inv [OF assms(1)] obtain a0 where
    a0: "set_ics ics (replicate (N + 1) 0) = Inr a0" and inv: "nth_order_inv m G x0 a0 N (N + 1 - m) b"
    by blast
  from set_ics_keys [OF a0 assms(3)] have k: "k \<le> N" by simp
  with inv assms(4) have "b ! k = a0 ! k" by (simp add: nth_order_inv_def)
  moreover from assms(2,3) have "map_of (rev ics) k = Some v"
    by (simp add: map_of_distinct_rev)
  with set_ics_nth [OF a0, of k] k have "a0 ! k = v" by (simp del: replicate_Suc)
  ultimately show ?thesis by simp
qed


text \<open>A run that returns at one order returns at every lower order.\<close>

lemma subs_expand_syms:
  "subs_expand subs_map E = Inr p \<Longrightarrow> syms E \<subseteq> covered subs_map"
  by (induction E arbitrary: p)
    (auto simp: covered_def split: sum.splits option.splits sym.splits if_splits)

lemma coeff_of_subs_syms:
  "coeff_of_subs subs_map E n = Inr c \<Longrightarrow> syms E \<subseteq> covered subs_map"
  using subs_expand_syms [of subs_map E]
  by (auto simp: coeff_of_subs_def Let_def split: sum.splits)

lemma for_range_first:
  "for_range body [0..<Suc k] s = Inr s' \<Longrightarrow> \<exists>s1. body 0 s = Inr s1"
  by (simp add: upt_conv_Cons del: upt_Suc split: sum.splits)

lemma first_order_coeffs_down:
  assumes "first_order_coeffs F y0 N x0 = Inr a" and "N' \<le> N"
  shows "first_order_coeffs F y0 N' x0 = Inr (take (N' + 1) a)"
proof -
  have "\<exists>a'. first_order_coeffs F y0 N' x0 = Inr a'"
  proof (cases N)
    case 0
    with assms show ?thesis by auto
  next
    case (Suc k)
    from assms(1) obtain a1 where
      "for_range (first_order_step F x0) [0..<Suc k] ((replicate (N + 1) None)[0 := Some y0]) = Inr a1"
      by (auto simp: first_order_coeffs_def Let_def Suc split: sum.splits)
    from for_range_first [OF this] obtain a2 where
      "first_order_step F x0 0 ((replicate (N + 1) None)[0 := Some y0]) = Inr a2" by blast
    then obtain c where "coeff_of_subs (first_order_subs x0
        (partial_sum ((replicate (N + 1) None)[0 := Some y0]) (0 + 1))) F 0 = Inr c"
      by (auto simp: first_order_step_def Let_def split: sum.splits)
    from coeff_of_subs_syms [OF this] have "syms F \<subseteq> insert SymX (insert SymY (range FunY))"
      by (simp add: covered_first_order_subs)
    then show ?thesis by (rule first_order_coeffs_total)
  qed
  then obtain a' where a': "first_order_coeffs F y0 N' x0 = Inr a'" by blast
  from first_order_coeffs_prefix [OF assms(1) a' assms(2)] a' show ?thesis by simp
qed

lemma system_coeffs_down:
  assumes "system_coeffs F G f0 g0 N x0 = Inr (pf, pg)" and "N' \<le> N"
  shows "system_coeffs F G f0 g0 N' x0 = Inr (take (N' + 1) pf, take (N' + 1) pg)"
proof -
  have "\<exists>pf' pg'. system_coeffs F G f0 g0 N' x0 = Inr (pf', pg')"
  proof (cases N)
    case 0
    with assms show ?thesis by auto
  next
    case (Suc k)
    let ?s = "((replicate (N + 1) None)[0 := Some f0], (replicate (N + 1) None)[0 := Some g0])"
    from assms(1) obtain s1 where
      "for_range (system_step F G x0) [0..<Suc k] ?s = Inr s1"
      by (auto simp: system_coeffs_def Let_def Suc split: sum.splits)
    from for_range_first [OF this] obtain s2 where "system_step F G x0 0 ?s = Inr s2" by blast
    then obtain cF cG where
      "coeff_of_subs (system_subs x0 (partial_sum (fst ?s) (0 + 1)) (partial_sum (snd ?s) (0 + 1))) F 0 = Inr cF"
      "coeff_of_subs (system_subs x0 (partial_sum (fst ?s) (0 + 1)) (partial_sum (snd ?s) (0 + 1))) G 0 = Inr cG"
      by (auto simp: system_step_def Let_def split: sum.splits)
    from coeff_of_subs_syms [OF this(1)] coeff_of_subs_syms [OF this(2)]
    have "syms F \<subseteq> {SymX, FunF, FunG}" "syms G \<subseteq> {SymX, FunF, FunG}"
      by (simp_all add: covered_system_subs)
    then show ?thesis by (rule system_coeffs_total)
  qed
  then obtain pf' pg' where s': "system_coeffs F G f0 g0 N' x0 = Inr (pf', pg')" by blast
  from system_coeffs_prefix [OF assms(1) s' assms(2)] s' show ?thesis by simp
qed

lemma nth_order_coeffs_down:
  assumes "nth_order_coeffs m G ics N x0 = Inr b" and "N' \<le> N"
    and "\<forall>k \<in> fst ` set ics. k \<le> N'"
  shows "nth_order_coeffs m G ics N' x0 = Inr (take (N' + 1) b)"
proof -
  from assms(3) have "\<forall>k \<in> fst ` set ics. k < length (replicate (N' + 1) (0::'a))" by auto
  from set_ics_total [OF this] obtain a0' where a0': "set_ics ics (replicate (N' + 1) 0) = Inr a0'"
    by blast
  have "\<exists>b'. nth_order_coeffs m G ics N' x0 = Inr b'"
  proof (cases "N + 1 - m")
    case 0
    with assms(2) have "N' + 1 - m = 0" by simp
    with a0' show ?thesis by (simp add: nth_order_coeffs_def)
  next
    case (Suc k)
    from assms(1) obtain a0 where
      "for_range (nth_order_step m G x0 N) [0..<N + 1 - m] a0 = Inr b"
      by (auto simp: nth_order_coeffs_def split: sum.splits)
    from for_range_first [OF this [unfolded Suc]] obtain a1 where "nth_order_step m G x0 N 0 a0 = Inr a1" by blast
    then obtain Y ds c where "coeff_of_subs (nth_order_subs x0 m Y ds) G 0 = Inr c"
      by (auto simp: nth_order_step_def Let_def split: sum.splits)
    from coeff_of_subs_syms [OF this]
    have "syms G \<subseteq> insert SymX (insert SymY (range FunY))"
      by (simp add: covered_nth_order_subs)
    from nth_order_coeffs_total [OF this assms(3)] show ?thesis .
  qed
  then obtain b' where b': "nth_order_coeffs m G ics N' x0 = Inr b'" by blast
  from nth_order_coeffs_prefix [OF assms(1) b' assms(2)] b' show ?thesis by simp
qed

section \<open>Worked examples\<close>

text \<open>
  Small runs of the three solvers and of one step of each loop, for the equations
  \<open>y' = y\<close>, \<open>y'' = -y\<close> and \<open>f' = g, g' = -f\<close>.
\<close>

lemma ex_first_order_2: "first_order_coeffs (Sym (FunY 0)) (1::rat) 2 0 = Inr [1, 1, 1 / 2]"
  by (simp add: first_order_coeffs_def first_order_step_def coeff_of_subs_def
      first_order_subs_def partial_sum_def series_removeO_def coeff_t_def smul_def
      upt_rec numeral_eq_Suc Let_def)

lemma ex_nth_order_2:
  "nth_order_coeffs 2 (Mul (Const (- 1)) (Sym (FunY 0))) [(0, 1::rat), (1, 0)] 2 0 = Inr [1, 0, - (1 / 2)]"
  by (simp add: nth_order_coeffs_def nth_order_step_def coeff_of_subs_def
      nth_order_subs_def Y_upto_def diff_t_def diff_t1_def series_removeO_def coeff_t_def smul_def
      upt_rec numeral_eq_Suc Let_def)

lemma ex_system_2:
  "system_coeffs (Sym FunG) (Mul (Const (- 1)) (Sym FunF)) (0::rat) 1 2 0 = Inr ([0, 1, 0], [1, 0, - (1 / 2)])"
  by (simp add: system_coeffs_def system_step_def coeff_of_subs_def
      system_subs_def partial_sum_def series_removeO_def coeff_t_def smul_def
      upt_rec numeral_eq_Suc Let_def)

lemma ex_unsubstituted_first_derivative:
  "series_nth_order 2 (Add (Mul (Const (- 1)) (Sym (FunY 1))) (Mul (Const (- 1)) (Sym (FunY 0))))
     [(0, 1::rat), (1, 0)] 4 0 = Inr [1, 0, - (1 / 2), 0, 1 / 24]"
  by (simp add: series_nth_order_def nth_order_coeffs_def nth_order_step_def coeff_of_subs_def
      nth_order_subs_def Y_upto_def diff_t_def diff_t1_def series_removeO_def coeff_t_def expand_at_def smul_def
      upt_rec numeral_eq_Suc Let_def)

lemma ex_damped_2:
  "nth_order_coeffs 2 (Add (Mul (Const (- 1)) (Sym (FunY 1))) (Mul (Const (- 1)) (Sym (FunY 0))))
     [(0, 1::rat), (1, 0)] 2 0 = Inr [1, 0, - (1 / 2)]"
  by (simp add: nth_order_coeffs_def nth_order_step_def coeff_of_subs_def
      nth_order_subs_def Y_upto_def diff_t_def diff_t1_def series_removeO_def coeff_t_def smul_def
      upt_rec numeral_eq_Suc Let_def)

lemma ex_first_order_step:
  "first_order_step (Sym (FunY 0)) (0::rat) 0 [Some 1, None] = Inr [Some 1, Some 1]"
  by (simp add: first_order_step_def coeff_of_subs_def
      first_order_subs_def partial_sum_def series_removeO_def coeff_t_def)

lemma ex_system_step:
  "system_step (Sym FunG) (Mul (Const (- 1)) (Sym FunF)) (0::rat) 0 ([Some 0, None], [Some 1, None]) =
     Inr ([Some 0, Some 1], [Some 1, Some 0])"
  by (simp add: system_step_def coeff_of_subs_def
      system_subs_def partial_sum_def series_removeO_def coeff_t_def smul_def)

lemma ex_nth_order_step:
  "nth_order_step 2 (Add (Mul (Const (- 1)) (Sym (FunY 1))) (Mul (Const (- 1)) (Sym (FunY 0))))
     (0::rat) 2 0 [1, 0, 0] = Inr [1, 0, - (1 / 2)]"
  by (simp add: nth_order_step_def coeff_of_subs_def
      nth_order_subs_def Y_upto_def diff_t_def diff_t1_def series_removeO_def coeff_t_def smul_def
      upt_rec numeral_eq_Suc Let_def)

section \<open>The recurrences\<close>

text \<open>
  Claim C1. For a right-hand side \<open>F\<close> over \<open>x\<close>, \<open>y(x)\<close> and \<open>y\<close>, an initial value
  \<open>y0\<close>, an expansion point \<open>x0\<close> and an order \<open>N\<close>, the first-order solver returns
  \<open>N + 1\<close> coefficients with \<open>a_0 = y0\<close> and \<open>a_(n+1) = c_n / (n + 1)\<close> for every
  \<open>n < N\<close>, where \<open>c_n\<close> is the coefficient of \<open>t ^ n\<close> of \<open>F\<close> after the substitution
  of \<open>x0 + t\<close> for \<open>x\<close> and of the partial series of \<open>a_0 .. a_n\<close> for the unknown
  function. For \<open>y' = y\<close>, \<open>y(0) = 1\<close> and order 6 the result is
  \<open>1 + x + x^2/2 + x^3/6 + x^4/24 + x^5/120 + x^6/720\<close>.
\<close>

theorem C1_first_order_recurrence:
  "(syms F \<subseteq> {SymX, FunY 0, SymY} \<longrightarrow>
      (\<exists>a. first_order_coeffs F y0 N x0 = Inr a \<and> length a = N + 1 \<and> a ! 0 = y0 \<and>
           (\<forall>n<N. \<exists>c_n. coeff_of_subs (first_order_subs x0 (take (n + 1) a)) F n = Inr c_n \<and>
                         a ! (n + 1) = c_n / of_nat (n + 1)))) \<and>
   series_first_order (Sym (FunY 0)) (1::rat) 6 0 = Inr [1, 1, 1 / 2, 1 / 6, 1 / 24, 1 / 120, 1 / 720]"
proof (intro conjI impI)
  assume "syms F \<subseteq> {SymX, FunY 0, SymY}"
  then have "syms F \<subseteq> insert SymX (insert SymY (range FunY))" by auto
  from first_order_coeffs_total [OF this] obtain a where a: "first_order_coeffs F y0 N x0 = Inr a"
    by blast
  from first_order_coeffs_rec [OF a] a
  show "\<exists>a. first_order_coeffs F y0 N x0 = Inr a \<and> length a = N + 1 \<and> a ! 0 = y0 \<and>
           (\<forall>n<N. \<exists>c_n. coeff_of_subs (first_order_subs x0 (take (n + 1) a)) F n = Inr c_n \<and>
                         a ! (n + 1) = c_n / of_nat (n + 1))"
    unfolding first_order_rec_def by auto
next
  show "series_first_order (Sym (FunY 0)) (1::rat) 6 0 = Inr [1, 1, 1 / 2, 1 / 6, 1 / 24, 1 / 120, 1 / 720]"
    by (simp add: series_first_order_def first_order_coeffs_def first_order_step_def coeff_of_subs_def
      first_order_subs_def partial_sum_def series_removeO_def coeff_t_def expand_at_def smul_def
      upt_rec numeral_eq_Suc Let_def)
qed

text \<open>
  The recurrence of the first-order solver at the equation \<open>y' = x * y\<close>, \<open>y(0) = 1\<close>,
  order 2.
\<close>

theorem C1_first_order_recurrence_witness:
  "syms (Mul (Sym SymX) (Sym SymY) :: rat expr) \<subseteq> {SymX, FunY 0, SymY} \<and>
   (\<exists>a. first_order_coeffs (Mul (Sym SymX) (Sym SymY)) (1::rat) 2 0 = Inr a \<and> length a = 2 + 1 \<and> a ! 0 = 1 \<and>
        (\<forall>n<2. \<exists>c_n. coeff_of_subs (first_order_subs 0 (take (n + 1) a)) (Mul (Sym SymX) (Sym SymY)) n = Inr c_n \<and>
                      a ! (n + 1) = c_n / of_nat (n + 1)))"
proof -
  have h: "syms (Mul (Sym SymX) (Sym SymY) :: rat expr) \<subseteq> {SymX, FunY 0, SymY}" by simp
  from C1_first_order_recurrence [of "Mul (Sym SymX) (Sym SymY)" "1::rat" 2 0] h
  show ?thesis by blast
qed



text \<open>
  Claim C3. For right-hand sides \<open>F\<close> and \<open>G\<close> over \<open>x\<close>, \<open>f(x)\<close> and \<open>g(x)\<close>, the
  solver for a system returns two lists of \<open>N + 1\<close> coefficients that start with \<open>f0\<close>
  and \<open>g0\<close>, and for every \<open>n < N\<close> the coefficients \<open>af_(n+1)\<close> and \<open>ag_(n+1)\<close> are
  the coefficients of \<open>t ^ n\<close> of the substituted \<open>F\<close> and \<open>G\<close>, each divided by
  \<open>n + 1\<close>, computed from the coefficients of degree at most \<open>n\<close> of both series. For
  \<open>f' = f + g\<close>, \<open>g' = f + g\<close>, \<open>f(0) = 1\<close>, \<open>g(0) = 0\<close> and order 5 the results are
  \<open>1 + x + x^2 + 2x^3/3 + x^4/3 + 2x^5/15\<close> and \<open>x + x^2 + 2x^3/3 + x^4/3 + 2x^5/15\<close>:
  the coefficient of \<open>x^5\<close> is \<open>2/15\<close>.
\<close>

theorem C3_system_recurrence:
  "(syms F \<subseteq> {SymX, FunF, FunG} \<and> syms G \<subseteq> {SymX, FunF, FunG} \<longrightarrow>
      (\<exists>af ag. system_coeffs F G f0 g0 N x0 = Inr (af, ag) \<and>
           length af = N + 1 \<and> length ag = N + 1 \<and> af ! 0 = f0 \<and> ag ! 0 = g0 \<and>
           (\<forall>n<N. \<exists>cF cG.
              coeff_of_subs (system_subs x0 (take (n + 1) af) (take (n + 1) ag)) F n = Inr cF \<and>
              coeff_of_subs (system_subs x0 (take (n + 1) af) (take (n + 1) ag)) G n = Inr cG \<and>
              af ! (n + 1) = cF / of_nat (n + 1) \<and>
              ag ! (n + 1) = cG / of_nat (n + 1)))) \<and>
   series_system_2x2 (Add (Sym FunF) (Sym FunG)) (Add (Sym FunF) (Sym FunG)) (1::rat) 0 5 0 =
     Inr ([1, 1, 1, 2 / 3, 1 / 3, 2 / 15], [0, 1, 1, 2 / 3, 1 / 3, 2 / 15])"
proof (intro conjI impI)
  assume h: "syms F \<subseteq> {SymX, FunF, FunG} \<and> syms G \<subseteq> {SymX, FunF, FunG}"
  with system_coeffs_total [of F G f0 g0 N x0] obtain af ag where
    a: "system_coeffs F G f0 g0 N x0 = Inr (af, ag)" by blast
  from system_coeffs_rec [OF a] a
  show "\<exists>af ag. system_coeffs F G f0 g0 N x0 = Inr (af, ag) \<and>
           length af = N + 1 \<and> length ag = N + 1 \<and> af ! 0 = f0 \<and> ag ! 0 = g0 \<and>
           (\<forall>n<N. \<exists>cF cG.
              coeff_of_subs (system_subs x0 (take (n + 1) af) (take (n + 1) ag)) F n = Inr cF \<and>
              coeff_of_subs (system_subs x0 (take (n + 1) af) (take (n + 1) ag)) G n = Inr cG \<and>
              af ! (n + 1) = cF / of_nat (n + 1) \<and>
              ag ! (n + 1) = cG / of_nat (n + 1))"
    unfolding system_rec_def by auto
next
  show "series_system_2x2 (Add (Sym FunF) (Sym FunG)) (Add (Sym FunF) (Sym FunG)) (1::rat) 0 5 0 =
     Inr ([1, 1, 1, 2 / 3, 1 / 3, 2 / 15], [0, 1, 1, 2 / 3, 1 / 3, 2 / 15])"
    by (simp add: series_system_2x2_def system_coeffs_def system_step_def coeff_of_subs_def
      system_subs_def partial_sum_def series_removeO_def coeff_t_def expand_at_def smul_def
      upt_rec numeral_eq_Suc Let_def)
qed

text \<open>
  The recurrence of the system solver at \<open>f' = g\<close>, \<open>g' = -f\<close>, \<open>f(0) = 0\<close>,
  \<open>g(0) = 1\<close>, order 2.
\<close>

theorem C3_system_recurrence_witness:
  "(syms (Sym FunG :: rat expr) \<subseteq> {SymX, FunF, FunG} \<and>
    syms (Mul (Const (- 1)) (Sym FunF) :: rat expr) \<subseteq> {SymX, FunF, FunG}) \<and>
      (\<exists>af ag. system_coeffs (Sym FunG) (Mul (Const (- 1)) (Sym FunF)) (0::rat) 1 2 0 = Inr (af, ag) \<and>
           length af = 2 + 1 \<and> length ag = 2 + 1 \<and> af ! 0 = 0 \<and> ag ! 0 = 1 \<and>
           (\<forall>n<2. \<exists>cF cG.
              coeff_of_subs (system_subs 0 (take (n + 1) af) (take (n + 1) ag)) (Sym FunG) n = Inr cF \<and>
              coeff_of_subs (system_subs 0 (take (n + 1) af) (take (n + 1) ag)) (Mul (Const (- 1)) (Sym FunF)) n = Inr cG \<and>
              af ! (n + 1) = cF / of_nat (n + 1) \<and>
              ag ! (n + 1) = cG / of_nat (n + 1)))"
proof -
  have h: "syms (Sym FunG :: rat expr) \<subseteq> {SymX, FunF, FunG} \<and>
    syms (Mul (Const (- 1)) (Sym FunF) :: rat expr) \<subseteq> {SymX, FunF, FunG}" by simp
  from C3_system_recurrence [of "Sym FunG" "Mul (Const (- 1)) (Sym FunF)" "0::rat" 1 2 0] h
  show ?thesis by blast
qed

section \<open>Derivative symbols in the right-hand side\<close>

text \<open>
  Claim C4. At every step of the order-m solver each derivative symbol \<open>y^(k)\<close>,
  \<open>1 \<le> k \<le> m - 1\<close>, that occurs in \<open>G\<close> is to be replaced by the partial series
  differentiated \<open>k\<close> times. The loop that fills the substitution map pairs the key
  \<open>y(x).diff(x, k - 1)\<close> with \<open>derivs[k - 1]\<close> for \<open>k\<close> in \<open>range(1, m)\<close>, so the keys
  stop at the derivative of order \<open>m - 2\<close>: for every \<open>m \<ge> 2\<close> the symbol of the
  derivative of order \<open>m - 1\<close> is no key of the map, and for \<open>m = 2\<close> the symbol \<open>y'\<close>
  is not replaced, whatever the partial series and its derivatives are.
\<close>

theorem C4_highest_derivative_not_substituted:
  "nth_order_subs x0 (Suc (Suc j)) Y derivs (FunY (Suc j)) = None \<and>
   nth_order_subs x0 2 Y derivs (FunY 1) = None"
proof -
  have "FunY (Suc j) \<notin> dom (nth_order_subs x0 (Suc (Suc j)) Y derivs)"
    unfolding dom_nth_order_subs by auto
  moreover have "FunY 1 \<notin> dom (nth_order_subs x0 2 Y derivs)"
    unfolding dom_nth_order_subs by auto
  ultimately show ?thesis by (simp add: domIff)
qed

section \<open>Causality\<close>

text \<open>
  When a solver returns at order \<open>N\<close>, it returns at every order \<open>N' \<le> N\<close> the same list
  of coefficients cut after degree \<open>N'\<close>; for the order-m solver, when no key of the
  initial conditions lies beyond \<open>N'\<close>. The coefficients are those of the powers of
  \<open>x - x0\<close>.
\<close>

lemma causality_of_returned_orders:
  "(N' \<le> N \<and> first_order_coeffs F y0 N x0 = Inr a \<longrightarrow>
      first_order_coeffs F y0 N' x0 = Inr (take (N' + 1) a) \<and>
      (\<forall>k\<le>N'. take (N' + 1) a ! k = a ! k)) \<and>
   (N' \<le> N \<and> nth_order_coeffs m G ics N x0 = Inr b \<and> (\<forall>i \<in> fst ` set ics. i \<le> N') \<longrightarrow>
      nth_order_coeffs m G ics N' x0 = Inr (take (N' + 1) b) \<and>
      (\<forall>k\<le>N'. take (N' + 1) b ! k = b ! k)) \<and>
   (N' \<le> N \<and> system_coeffs F1 F2 f0 g0 N x0 = Inr (pf, pg) \<longrightarrow>
      system_coeffs F1 F2 f0 g0 N' x0 = Inr (take (N' + 1) pf, take (N' + 1) pg) \<and>
      (\<forall>k\<le>N'. take (N' + 1) pf ! k = pf ! k \<and> take (N' + 1) pg ! k = pg ! k))"
proof (intro conjI impI)
  assume "N' \<le> N \<and> first_order_coeffs F y0 N x0 = Inr a"
  then show "first_order_coeffs F y0 N' x0 = Inr (take (N' + 1) a)"
    using first_order_coeffs_down [of F y0 N x0 a N'] by blast
next
  assume "N' \<le> N \<and> nth_order_coeffs m G ics N x0 = Inr b \<and> (\<forall>i \<in> fst ` set ics. i \<le> N')"
  then show "nth_order_coeffs m G ics N' x0 = Inr (take (N' + 1) b)"
    using nth_order_coeffs_down [of m G ics N x0 b N'] by blast
next
  assume "N' \<le> N \<and> system_coeffs F1 F2 f0 g0 N x0 = Inr (pf, pg)"
  then show "system_coeffs F1 F2 f0 g0 N' x0 = Inr (take (N' + 1) pf, take (N' + 1) pg)"
    using system_coeffs_down [of F1 F2 f0 g0 N x0 pf pg N'] by blast
qed simp_all

text \<open>
  Claim C5. For each of the three solvers, every equation and every pair of truncation
  orders \<open>N' < N\<close>, the coefficients of degree \<open>k \<le> N'\<close> are to be the same at both
  orders. The order-m solver breaks this where it fails for a short order: with \<open>m = 3\<close>,
  the right-hand side 0 and the complete initial conditions \<open>{0: 1, 1: 2, 2: 3}\<close>, order
  3 gives the coefficients \<open>1, 2, 3, 0\<close> and order 1 raises \<open>IndexError\<close>, so there are
  no coefficients of degree 0 and 1 to agree with.
\<close>

theorem C5_causality_fails_at_short_order:
  "nth_order_coeffs 3 (Const 0) [(0, 1::rat), (1, 2), (2, 3)] 3 0 = Inr [1, 2, 3, 0] \<and>
   nth_order_coeffs 3 (Const 0) [(0, 1::rat), (1, 2), (2, 3)] 1 0 = Inl IndexError \<and>
   series_nth_order 3 (Const 0) [(0, 1::rat), (1, 2), (2, 3)] 3 0 = Inr [1, 2, 3, 0]"
  by (simp add: series_nth_order_def nth_order_coeffs_def nth_order_step_def coeff_of_subs_def
      Y_upto_def series_removeO_def coeff_t_def expand_at_def smul_def upt_rec numeral_eq_Suc Let_def)

section \<open>Initial conditions\<close>

text \<open>
  Claim C6, as stated: if the initial conditions of the order-m solver omit a derivative
  order \<open>k\<close> in \<open>0 .. m - 1\<close>, the call fails with a specification error and the missing
  entry is never taken as zero. The solver has no such check. For \<open>y'' = -y\<close> with the
  initial conditions \<open>{0: 1}\<close> alone and order 4 it returns \<open>1 - x^2/2 + x^4/24\<close>, the
  series for \<open>y'(0) = 0\<close>.
\<close>

theorem C6_missing_initial_condition_counterexample:
  "(1::nat) \<notin> fst ` set [(0::nat, 1::rat)] \<and>
   series_nth_order 2 (Mul (Const (- 1)) (Sym (FunY 0))) [(0, 1::rat)] 4 0 =
     Inr [1, 0, - (1 / 2), 0, 1 / 24]"
  by (simp add: series_nth_order_def nth_order_coeffs_def nth_order_step_def coeff_of_subs_def
      nth_order_subs_def Y_upto_def diff_t_def diff_t1_def series_removeO_def coeff_t_def expand_at_def smul_def
      upt_rec numeral_eq_Suc Let_def)

text \<open>
  Claim C6, amended. The list of coefficients starts as zeros, so a derivative order
  \<open>k \<le> N\<close> that the initial conditions omit counts as the value zero: the solver returns
  what it returns for the same initial conditions with the entry \<open>k: 0\<close> added, at any
  place of the dictionary.
\<close>

theorem C6_missing_initial_condition_is_zero:
  "k \<notin> fst ` set (ics1 @ ics2) \<and> k \<le> N \<longrightarrow>
   nth_order_coeffs m G (ics1 @ (k, 0) # ics2) N x0 = nth_order_coeffs m G (ics1 @ ics2) N x0 \<and>
   series_nth_order m G (ics1 @ (k, 0) # ics2) N x0 = series_nth_order m G (ics1 @ ics2) N x0"
proof
  assume "k \<notin> fst ` set (ics1 @ ics2) \<and> k \<le> N"
  then have "k \<notin> fst ` set (ics1 @ ics2)" and "k \<le> N" by simp_all
  from set_ics_missing_zero [OF this]
  have "nth_order_coeffs m G (ics1 @ (k, 0) # ics2) N x0 = nth_order_coeffs m G (ics1 @ ics2) N x0"
    unfolding nth_order_coeffs_def by (rule arg_cong)
  then show "nth_order_coeffs m G (ics1 @ (k, 0) # ics2) N x0 = nth_order_coeffs m G (ics1 @ ics2) N x0 \<and>
   series_nth_order m G (ics1 @ (k, 0) # ics2) N x0 = series_nth_order m G (ics1 @ ics2) N x0"
    unfolding series_nth_order_def by simp
qed

text \<open>
  The equation \<open>y'' = -y\<close> at order 4, with \<open>{0: 1}\<close> and with \<open>{0: 1, 1: 0}\<close>.
\<close>

theorem C6_missing_initial_condition_is_zero_witness:
  "((1::nat) \<notin> fst ` set ([(0, 1::rat)] @ []) \<and> (1::nat) \<le> 4) \<and>
   nth_order_coeffs 2 (Mul (Const (- 1)) (Sym (FunY 0))) ([(0, 1::rat)] @ (1, 0) # []) 4 0 =
     nth_order_coeffs 2 (Mul (Const (- 1)) (Sym (FunY 0))) ([(0, 1)] @ []) 4 0 \<and>
   series_nth_order 2 (Mul (Const (- 1)) (Sym (FunY 0))) ([(0, 1::rat)] @ (1, 0) # []) 4 0 =
     series_nth_order 2 (Mul (Const (- 1)) (Sym (FunY 0))) ([(0, 1)] @ []) 4 0"
proof -
  have h: "(1::nat) \<notin> fst ` set ([(0, 1::rat)] @ []) \<and> (1::nat) \<le> 4" by simp
  from C6_missing_initial_condition_is_zero
    [of 1 "[(0, 1::rat)]" "[]" 4 2 "Mul (Const (- 1)) (Sym (FunY 0))" 0] h
  show ?thesis by blast
qed

text \<open>
  Claim C7. For a truncation order \<open>N < m - 1\<close> the result is to be the supplied initial
  conditions as a shorter polynomial. With \<open>m = 3\<close>, the complete initial conditions
  \<open>{0: 1, 1: 2, 2: 3}\<close> and order 1, the list \<open>a\<close> has two entries and the assignment
  \<open>a[2] = 3\<close> raises \<open>IndexError\<close>.
\<close>

theorem C7_short_order_raises:
  "series_nth_order 3 (Const 0) [(0, 1::rat), (1, 2), (2, 3)] 1 0 = Inl IndexError"
  by (simp add: series_nth_order_def nth_order_coeffs_def)

text \<open>
  Claim C8. The coefficient of degree 0 that the first-order solver and the system solver
  return is the supplied initial value, and every coefficient of degree \<open>k < m\<close> that the
  order-m solver returns is the value the initial conditions give for \<open>k\<close>. No step of
  a recurrence overwrites them: a step of the first-order and of the system solver leaves
  index 0 as it is, and a step of the order-m solver leaves every index below \<open>m\<close> as
  it is. On a valid input each solver does return: for the order-m solver, on every
  right-hand side over \<open>x\<close>, \<open>y\<close>, \<open>y(x)\<close> and the derivatives of \<open>y(x)\<close>, with initial
  conditions for exactly the orders \<open>0 .. m - 1\<close> and \<open>N \<ge> m - 1\<close>.
\<close>

theorem C8_initial_values:
  "(first_order_coeffs F y0 N x0 = Inr a \<longrightarrow> a ! 0 = y0) \<and>
   (system_coeffs F1 F2 f0 g0 N x0 = Inr (pf, pg) \<longrightarrow> pf ! 0 = f0 \<and> pg ! 0 = g0) \<and>
   (nth_order_coeffs m G ics N x0 = Inr b \<and> distinct (map fst ics) \<and> (k, v) \<in> set ics \<and> k < m \<longrightarrow>
      b ! k = v) \<and>
   (first_order_step F x0 n s = Inr s' \<longrightarrow> s' ! 0 = s ! 0) \<and>
   (system_step F1 F2 x0 n (af, ag) = Inr (af', ag') \<longrightarrow> af' ! 0 = af ! 0 \<and> ag' ! 0 = ag ! 0) \<and>
   (nth_order_step m G x0 N n c = Inr c' \<and> k < m \<longrightarrow> c' ! k = c ! k) \<and>
   (syms F \<subseteq> insert SymX (insert SymY (range FunY)) \<longrightarrow>
      (\<exists>a1. first_order_coeffs F y0 N x0 = Inr a1 \<and> a1 ! 0 = y0)) \<and>
   (syms F1 \<subseteq> {SymX, FunF, FunG} \<and> syms F2 \<subseteq> {SymX, FunF, FunG} \<longrightarrow>
      (\<exists>pf1 pg1. system_coeffs F1 F2 f0 g0 N x0 = Inr (pf1, pg1) \<and> pf1 ! 0 = f0 \<and> pg1 ! 0 = g0)) \<and>
   (1 \<le> m \<and> fst ` set ics = {..<m} \<and> distinct (map fst ics) \<and> m \<le> N + 1 \<and>
    syms G \<subseteq> insert SymX (insert SymY (range FunY)) \<longrightarrow>
      (\<exists>b1. nth_order_coeffs m G ics N x0 = Inr b1 \<and> (\<forall>j w. (j, w) \<in> set ics \<longrightarrow> b1 ! j = w)))"
proof (intro conjI impI)
  assume "first_order_coeffs F y0 N x0 = Inr a"
  from first_order_coeffs_rec [OF this] show "a ! 0 = y0" by (simp add: first_order_rec_def)
next
  assume "system_coeffs F1 F2 f0 g0 N x0 = Inr (pf, pg)"
  from system_coeffs_rec [OF this] show "pf ! 0 = f0" "pg ! 0 = g0" by (simp_all add: system_rec_def)
next
  assume "nth_order_coeffs m G ics N x0 = Inr b \<and> distinct (map fst ics) \<and> (k, v) \<in> set ics \<and> k < m"
  then show "b ! k = v" using nth_order_coeffs_ics [of m G ics N x0 b k v] by simp
next
  assume "first_order_step F x0 n s = Inr s'"
  then show "s' ! 0 = s ! 0" by (auto simp: first_order_step_def Let_def split: sum.splits)
next
  assume h: "system_step F1 F2 x0 n (af, ag) = Inr (af', ag')"
  then show "af' ! 0 = af ! 0" by (auto simp: system_step_def Let_def split: sum.splits)
  from h show "ag' ! 0 = ag ! 0" by (auto simp: system_step_def Let_def split: sum.splits)
next
  assume "nth_order_step m G x0 N n c = Inr c' \<and> k < m"
  then show "c' ! k = c ! k" by (auto simp: nth_order_step_def Let_def split: sum.splits)
next
  assume "syms F \<subseteq> insert SymX (insert SymY (range FunY))"
  from first_order_coeffs_total [OF this] obtain a1 where a1: "first_order_coeffs F y0 N x0 = Inr a1"
    by blast
  from first_order_coeffs_rec [OF a1] have "a1 ! 0 = y0" by (simp add: first_order_rec_def)
  with a1 show "\<exists>a1. first_order_coeffs F y0 N x0 = Inr a1 \<and> a1 ! 0 = y0" by blast
next
  assume "syms F1 \<subseteq> {SymX, FunF, FunG} \<and> syms F2 \<subseteq> {SymX, FunF, FunG}"
  then have "syms F1 \<subseteq> {SymX, FunF, FunG}" "syms F2 \<subseteq> {SymX, FunF, FunG}" by simp_all
  from system_coeffs_total [OF this] obtain pf1 pg1 where
    s1: "system_coeffs F1 F2 f0 g0 N x0 = Inr (pf1, pg1)" by blast
  from system_coeffs_rec [OF s1] have "pf1 ! 0 = f0" "pg1 ! 0 = g0" by (simp_all add: system_rec_def)
  with s1 show "\<exists>pf1 pg1. system_coeffs F1 F2 f0 g0 N x0 = Inr (pf1, pg1) \<and> pf1 ! 0 = f0 \<and> pg1 ! 0 = g0"
    by blast
next
  assume h: "1 \<le> m \<and> fst ` set ics = {..<m} \<and> distinct (map fst ics) \<and> m \<le> N + 1 \<and>
    syms G \<subseteq> insert SymX (insert SymY (range FunY))"
  then have keys: "fst ` set ics = {..<m}" and d: "distinct (map fst ics)" and mN: "m \<le> N + 1"
    and sy: "syms G \<subseteq> insert SymX (insert SymY (range FunY))" by simp_all
  have kN: "\<forall>i \<in> fst ` set ics. i \<le> N"
  proof
    fix i assume "i \<in> fst ` set ics"
    with keys have "i < m" by simp
    with mN show "i \<le> N" by simp
  qed
  from nth_order_coeffs_total [OF sy kN] obtain b1 where b1: "nth_order_coeffs m G ics N x0 = Inr b1"
    by blast
  have "b1 ! j = w" if "(j, w) \<in> set ics" for j w
  proof -
    from that have "j \<in> fst ` set ics" by force
    with keys have "j < m" by simp
    from nth_order_coeffs_ics [OF b1 d that this] show ?thesis .
  qed
  with b1 show "\<exists>b1. nth_order_coeffs m G ics N x0 = Inr b1 \<and> (\<forall>j w. (j, w) \<in> set ics \<longrightarrow> b1 ! j = w)"
    by blast
qed

text \<open>
  The three solvers at order 2 and the first step of each loop; the order-m solver at
  \<open>y'' = -y' - y\<close>, whose right-hand side has the derivative of order \<open>m - 1\<close>.
\<close>

theorem C8_initial_values_witness:
  "(first_order_coeffs (Sym (FunY 0)) (1::rat) 2 0 = Inr [1, 1, 1 / 2] \<and> [1, 1, 1 / 2 :: rat] ! 0 = 1) \<and>
   (system_coeffs (Sym FunG) (Mul (Const (- 1)) (Sym FunF)) (0::rat) 1 2 0 = Inr ([0, 1, 0], [1, 0, - (1 / 2)]) \<and>
      [0, 1, 0 :: rat] ! 0 = 0 \<and> [1, 0, - (1 / 2) :: rat] ! 0 = 1) \<and>
   (nth_order_coeffs 2 (Add (Mul (Const (- 1)) (Sym (FunY 1))) (Mul (Const (- 1)) (Sym (FunY 0)))) [(0, 1::rat), (1, 0)] 2 0 = Inr [1, 0, - (1 / 2)] \<and>
      distinct (map fst [(0::nat, 1::rat), (1, 0)]) \<and> (1, 0) \<in> set [(0::nat, 1::rat), (1, 0)] \<and> (1::nat) < 2 \<and>
      [1, 0, - (1 / 2) :: rat] ! 1 = 0) \<and>
   (first_order_step (Sym (FunY 0)) (0::rat) 0 [Some 1, None] = Inr [Some 1, Some 1] \<and>
      [Some (1::rat), Some 1] ! 0 = [Some 1, None] ! 0) \<and>
   (system_step (Sym FunG) (Mul (Const (- 1)) (Sym FunF)) (0::rat) 0 ([Some 0, None], [Some 1, None]) =
      Inr ([Some 0, Some 1], [Some 1, Some 0]) \<and>
      [Some (0::rat), Some 1] ! 0 = [Some 0, None] ! 0 \<and> [Some (1::rat), Some 0] ! 0 = [Some 1, None] ! 0) \<and>
   (nth_order_step 2 (Add (Mul (Const (- 1)) (Sym (FunY 1))) (Mul (Const (- 1)) (Sym (FunY 0)))) (0::rat) 2 0 [1, 0, 0] = Inr [1, 0, - (1 / 2)] \<and>
      [1, 0, - (1 / 2) :: rat] ! 1 = [1, 0, 0] ! 1) \<and>
   (\<exists>a1. first_order_coeffs (Sym (FunY 0)) (1::rat) 2 0 = Inr a1 \<and> a1 ! 0 = 1) \<and>
   (\<exists>pf1 pg1. system_coeffs (Sym FunG) (Mul (Const (- 1)) (Sym FunF)) (0::rat) 1 2 0 = Inr (pf1, pg1) \<and>
      pf1 ! 0 = 0 \<and> pg1 ! 0 = 1) \<and>
   (\<exists>b1. nth_order_coeffs 2 (Add (Mul (Const (- 1)) (Sym (FunY 1))) (Mul (Const (- 1)) (Sym (FunY 0)))) [(0, 1::rat), (1, 0)] 2 0 = Inr b1 \<and>
      (\<forall>j w. (j, w) \<in> set [(0::nat, 1::rat), (1, 0)] \<longrightarrow> b1 ! j = w))"
proof -
  have h3: "nth_order_coeffs 2 (Add (Mul (Const (- 1)) (Sym (FunY 1))) (Mul (Const (- 1)) (Sym (FunY 0)))) [(0, 1::rat), (1, 0)] 2 0 = Inr [1, 0, - (1 / 2)] \<and>
      distinct (map fst [(0::nat, 1::rat), (1, 0)]) \<and> (1, 0) \<in> set [(0::nat, 1::rat), (1, 0)] \<and> (1::nat) < 2"
    using ex_damped_2 by simp
  have h6: "nth_order_step 2 (Add (Mul (Const (- 1)) (Sym (FunY 1))) (Mul (Const (- 1)) (Sym (FunY 0)))) (0::rat) 2 0 [1, 0, 0] = Inr [1, 0, - (1 / 2)] \<and>
      (1::nat) < 2"
    using ex_nth_order_step by simp
  have h7: "syms (Sym (FunY 0) :: rat expr) \<subseteq> insert SymX (insert SymY (range FunY))" by simp
  have h8: "syms (Sym FunG :: rat expr) \<subseteq> {SymX, FunF, FunG} \<and>
    syms (Mul (Const (- 1)) (Sym FunF) :: rat expr) \<subseteq> {SymX, FunF, FunG}" by simp
  have h9: "1 \<le> (2::nat) \<and> fst ` set [(0::nat, 1::rat), (1, 0)] = {..<2} \<and>
    distinct (map fst [(0::nat, 1::rat), (1, 0)]) \<and> (2::nat) \<le> 2 + 1 \<and>
    syms ((Add (Mul (Const (- 1)) (Sym (FunY 1))) (Mul (Const (- 1)) (Sym (FunY 0)))) :: rat expr) \<subseteq> insert SymX (insert SymY (range FunY))"
    by (auto simp: numeral_2_eq_2 lessThan_Suc)
  from C8_initial_values [where F = "Sym (FunY 0)" and ?y0.0 = "1::rat" and N = 2 and ?x0.0 = 0
      and a = "[1, 1, 1 / 2]" and ?F1.0 = "Sym FunG" and ?F2.0 = "Mul (Const (- 1)) (Sym FunF)"
      and ?f0.0 = "0::rat" and ?g0.0 = 1 and pf = "[0, 1, 0]" and pg = "[1, 0, - (1 / 2)]"
      and m = 2 and G = "(Add (Mul (Const (- 1)) (Sym (FunY 1))) (Mul (Const (- 1)) (Sym (FunY 0))))" and ics = "[(0, 1::rat), (1, 0)]" and b = "[1, 0, - (1 / 2)]"
      and k = 1 and v = 0 and n = 0 and s = "[Some 1, None]" and s' = "[Some 1, Some 1]"
      and af = "[Some 0, None]" and ag = "[Some 1, None]" and af' = "[Some 0, Some 1]"
      and ag' = "[Some 1, Some 0]" and c = "[1, 0, 0]" and c' = "[1, 0, - (1 / 2)]"]
    ex_first_order_2 ex_system_2 h3 ex_first_order_step ex_system_step h6 h7 h8 h9
  show ?thesis by blast
qed

section \<open>Equivalent calls\<close>

text \<open>
  Claim C9. The order-m solver with \<open>m = 1\<close> and the single initial condition
  \<open>{0: y0}\<close> returns what the first-order solver returns for the same right-hand side,
  initial value, order and expansion point, errors included.
\<close>

theorem C9_order_one_is_first_order:
  "nth_order_coeffs 1 F [(0, y0)] N x0 = first_order_coeffs F y0 N x0 \<and>
   series_nth_order 1 F [(0, y0)] N x0 = series_first_order F y0 N x0"
  unfolding series_nth_order_def series_first_order_def nth_order_coeffs_one by simp

text \<open>
  Claim C10. In the first-order solver the unknown function may be written as the bare
  symbol \<open>y\<close> or as the applied function \<open>y(x)\<close>: every step replaces both by the same
  partial series, so a right-hand side written with the bare symbol gives the same step
  and the same result as the same right-hand side written with \<open>y(x)\<close>.
\<close>

theorem C10_bare_symbol_and_applied_function:
  "first_order_step (with_bare_y F) x0 n a = first_order_step (with_applied_y F) x0 n a \<and>
   first_order_coeffs (with_bare_y F) y0 N x0 = first_order_coeffs (with_applied_y F) y0 N x0 \<and>
   series_first_order (with_bare_y F) y0 N x0 = series_first_order (with_applied_y F) y0 N x0"
  by (simp add: series_first_order_def first_order_coeffs_def
      first_order_step_with_bare_y first_order_step_with_applied_y)

end
